theory Spec2Isabelle
  imports Main "HOL-Library.Product_Lexorder" "HOL-Library.List_Lexorder" "HOL-Library.Char_ord"
begin

section \<open>Kruskal clustering: the program\<close>

text \<open>
  The module \<^verbatim>\<open>kruskal.py\<close> works on three dictionaries \<^verbatim>\<open>parent\<close>, \<^verbatim>\<open>rank\<close> and
  \<^verbatim>\<open>cc\<close> that it mutates in place. Here a dictionary is a map, every function takes the
  dictionaries it reads and returns the ones it wrote, and a call has one of three outcomes:
  it returns a value (\<open>Some (Inr x)\<close>), it raises (\<open>Some (Inl e)\<close>), or it does not return
  (\<open>None\<close>: the recursion of \<^verbatim>\<open>_find\<close> on a cyclic \<^verbatim>\<open>parent\<close>, which the interpreter
  would end with a \<^verbatim>\<open>RecursionError\<close>; the depth of the recursion is not bounded here).
  The \<^verbatim>\<open>assert\<close> statements are executed, as they are unless the interpreter runs with
  \<^verbatim>\<open>-O\<close>. The input is a collection that can be iterated several times, given as the list
  of its elements in the order of iteration.
\<close>

subsection \<open>Data\<close>

text \<open>An edge is the 3-tuple \<^verbatim>\<open>(weight, source node, target node)\<close>; weights are Python integers.\<close>

type_synonym 'v edge = "int \<times> 'v \<times> 'v"

text \<open>
  An element of the input iterable, before its length has been looked at: a tuple of any
  length, whose first field (when there is one) is a weight and whose other fields are nodes.
\<close>

datatype 'v pytuple = Empty | Fields int "'v list"

fun len :: "'v pytuple \<Rightarrow> nat" where
  "len Empty = 0"
| "len (Fields weight nodes) = Suc (length nodes)"

text \<open>
  \<open>ValueError\<close> is what \<^verbatim>\<open>clustering\<close> raises on an ill-formed graph, and also what Python
  raises when a tuple is unpacked into the wrong number of names; \<open>KeyError\<close> is a missing
  dictionary key; \<open>AssertionError\<close> a failed \<^verbatim>\<open>assert\<close>.
\<close>

datatype error = ValueError | KeyError | AssertionError

type_synonym 'a outcome = "(error + 'a) option"

definition ok :: "'a \<Rightarrow> 'a outcome" where
  "ok x = Some (Inr x)"

definition raise :: "error \<Rightarrow> 'a outcome" where
  "raise e = Some (Inl e)"

definition bindr :: "'a outcome \<Rightarrow> ('a \<Rightarrow> 'b outcome) \<Rightarrow> 'b outcome" where
  "bindr m f = (case m of None \<Rightarrow> None | Some (Inl e) \<Rightarrow> Some (Inl e) | Some (Inr x) \<Rightarrow> f x)"

text \<open>The tuple assignment \<^verbatim>\<open>weight, vertice1, vertice2 = edge\<close>.\<close>

fun unpack :: "'v pytuple \<Rightarrow> 'v edge outcome" where
  "unpack (Fields weight [source, target]) = ok (weight, source, target)"
| "unpack _ = raise ValueError"

fun unpack_all :: "'v pytuple list \<Rightarrow> 'v edge list outcome" where
  "unpack_all [] = ok []"
| "unpack_all (t # ts) =
     bindr (unpack t) (\<lambda>edge. bindr (unpack_all ts) (\<lambda>edges. ok (edge # edges)))"

definition tuple3 :: "'v edge \<Rightarrow> 'v pytuple" where
  "tuple3 edge = (case edge of (weight, source, target) \<Rightarrow> Fields weight [source, target])"

subsection \<open>The disjoint-set functions\<close>

text \<open>
  \<^verbatim>\<open>_vertices\<close> returns a Python set. Its model is a list without duplicates: one order in
  which the set may be iterated.
\<close>

definition vertices :: "'v edge list \<Rightarrow> 'v list" where
  "vertices edges = remdups (concat (map (\<lambda>(_, source, target). [source, target]) edges))"

definition make_set ::
  "'v \<Rightarrow> ('v \<rightharpoonup> 'v) \<times> ('v \<rightharpoonup> nat) \<times> ('v \<rightharpoonup> 'v set) \<Rightarrow> ('v \<rightharpoonup> 'v) \<times> ('v \<rightharpoonup> nat) \<times> ('v \<rightharpoonup> 'v set)" where
  "make_set vertice dicts =
     (case dicts of (parent, rank, cc) \<Rightarrow>
        (parent(vertice \<mapsto> vertice), rank(vertice \<mapsto> 0), cc(vertice \<mapsto> {vertice})))"

text \<open>
  \<^verbatim>\<open>_find\<close>: the recursion follows \<^verbatim>\<open>parent\<close> up to a vertex that is its own parent and,
  on the way back, points every visited vertex at that root.
\<close>

partial_function (option) find_uf :: "'v \<Rightarrow> ('v \<rightharpoonup> 'v) \<Rightarrow> ('v \<times> ('v \<rightharpoonup> 'v)) outcome" where
  "find_uf vertice parent =
     (case parent vertice of
        None \<Rightarrow> Some (Inl KeyError)
      | Some p \<Rightarrow>
          if p \<noteq> vertice then
            Option.bind (find_uf p parent) (\<lambda>r.
              case r of
                Inl e \<Rightarrow> Some (Inl e)
              | Inr (root, parent') \<Rightarrow> Some (Inr (root, parent'(vertice \<mapsto> root))))
          else Some (Inr (p, parent)))"

text \<open>\<^verbatim>\<open>_union\<close>, which \<^verbatim>\<open>minimum_spanning_tree\<close> calls.\<close>

definition union_uf ::
  "'v \<Rightarrow> 'v \<Rightarrow> ('v \<rightharpoonup> 'v) \<Rightarrow> ('v \<rightharpoonup> nat) \<Rightarrow> (('v \<rightharpoonup> 'v) \<times> ('v \<rightharpoonup> nat)) outcome" where
  "union_uf vertice1 vertice2 parent rank =
     bindr (find_uf vertice1 parent) (\<lambda>(root1, parent1).
     bindr (find_uf vertice2 parent1) (\<lambda>(root2, parent2).
       if root1 \<noteq> root2 then
         (case rank root1 of
            None \<Rightarrow> raise KeyError
          | Some rank1 \<Rightarrow>
              (case rank root2 of
                 None \<Rightarrow> raise KeyError
               | Some rank2 \<Rightarrow>
                   if rank1 > rank2 then ok (parent2(root2 \<mapsto> root1), rank)
                   else ok (parent2(root1 \<mapsto> root2),
                            if rank1 = rank2 then rank(root2 \<mapsto> rank2 + 1) else rank)))
       else ok (parent2, rank)))"

text \<open>
  \<^verbatim>\<open>_union_returning_choosen\<close>, which \<^verbatim>\<open>clustering\<close> calls: the same union, returning the
  pair (new root, vertex that is no longer a root), or \<^verbatim>\<open>None\<close> when the two roots are equal.
\<close>

definition union_returning_choosen ::
  "'v \<Rightarrow> 'v \<Rightarrow> ('v \<rightharpoonup> 'v) \<Rightarrow> ('v \<rightharpoonup> nat) \<Rightarrow> (('v \<times> 'v) option \<times> ('v \<rightharpoonup> 'v) \<times> ('v \<rightharpoonup> nat)) outcome" where
  "union_returning_choosen vertice1 vertice2 parent rank =
     bindr (find_uf vertice1 parent) (\<lambda>(root1, parent1).
     bindr (find_uf vertice2 parent1) (\<lambda>(root2, parent2).
       if root1 \<noteq> root2 then
         (case rank root1 of
            None \<Rightarrow> raise KeyError
          | Some rank1 \<Rightarrow>
              (case rank root2 of
                 None \<Rightarrow> raise KeyError
               | Some rank2 \<Rightarrow>
                   if rank1 > rank2 then ok (Some (root1, root2), parent2(root2 \<mapsto> root1), rank)
                   else ok (Some (root2, root1), parent2(root1 \<mapsto> root2),
                            if rank1 = rank2 then rank(root2 \<mapsto> rank2 + 1) else rank)))
       else ok (None, parent2, rank)))"

subsection \<open>The two loops\<close>

text \<open>
  The local variables of \<^verbatim>\<open>minimum_spanning_tree\<close>, and those of \<^verbatim>\<open>clustering\<close>, which
  has the counter \<^verbatim>\<open>union_performed\<close> in addition.
\<close>

record 'v locals =
  minspantree :: "'v edge set"
  parent_d :: "'v \<rightharpoonup> 'v"
  rank_d :: "'v \<rightharpoonup> nat"
  cc_d :: "'v \<rightharpoonup> 'v set"

record 'v clocals = "'v locals" +
  union_performed :: int

text \<open>The dictionaries after the loop \<^verbatim>\<open>for vertex in vertices: _make_set(...)\<close>.\<close>

definition init_dicts :: "'v list \<Rightarrow> ('v \<rightharpoonup> 'v) \<times> ('v \<rightharpoonup> nat) \<times> ('v \<rightharpoonup> 'v set)" where
  "init_dicts vs = fold make_set vs (Map.empty, Map.empty, Map.empty)"

text \<open>One iteration of the loop of \<^verbatim>\<open>minimum_spanning_tree\<close>.\<close>

definition mst_body :: "'v locals \<Rightarrow> 'v edge \<Rightarrow> 'v locals outcome" where
  "mst_body s edge =
     (case edge of (weight, vertice1, vertice2) \<Rightarrow>
        bindr (find_uf vertice1 (parent_d s)) (\<lambda>(root1, parent1).
        bindr (find_uf vertice2 parent1) (\<lambda>(root2, parent2).
          if root1 \<noteq> root2 then
            bindr (union_uf vertice1 vertice2 parent2 (rank_d s)) (\<lambda>(parent3, rank3).
              ok (s\<lparr>minspantree := insert edge (minspantree s),
                     parent_d := parent3, rank_d := rank3\<rparr>))
          else ok (s\<lparr>parent_d := parent2\<rparr>))))"

fun mst_loop :: "'v edge list \<Rightarrow> 'v locals \<Rightarrow> 'v locals outcome" where
  "mst_loop [] s = ok s"
| "mst_loop (edge # rest) s = bindr (mst_body s edge) (mst_loop rest)"

definition mst_init :: "'v edge list \<Rightarrow> 'v locals" where
  "mst_init edges =
     (case init_dicts (vertices edges) of (parent, rank, cc) \<Rightarrow>
        \<lparr>minspantree = {}, parent_d = parent, rank_d = rank, cc_d = cc\<rparr>)"

definition mst_run :: "'v::linorder edge list \<Rightarrow> 'v locals outcome" where
  "mst_run edges = mst_loop (sort edges) (mst_init edges)"

definition minimum_spanning_tree :: "'v::linorder pytuple list \<Rightarrow> 'v edge set outcome" where
  "minimum_spanning_tree edges =
     bindr (unpack_all edges) (\<lambda>es. bindr (mst_run es) (\<lambda>s. ok (minspantree s)))"

text \<open>One iteration of the loop of \<^verbatim>\<open>clustering\<close>, after the test for \<^verbatim>\<open>break\<close>.\<close>

definition clustering_body :: "'v clocals \<Rightarrow> 'v edge \<Rightarrow> 'v clocals outcome" where
  "clustering_body s edge =
     (case edge of (weight, vertice1, vertice2) \<Rightarrow>
        bindr (find_uf vertice1 (parent_d s)) (\<lambda>(root1, parent1).
        bindr (find_uf vertice2 parent1) (\<lambda>(root2, parent2).
          if root1 \<noteq> root2 then
            bindr (union_returning_choosen vertice1 vertice2 parent2 (rank_d s))
              (\<lambda>(union_result, parent3, rank3).
                 bindr
                   (case union_result of
                      Some (choosen_root, unchoosen_root) \<Rightarrow>
                        (case cc_d s choosen_root of
                           None \<Rightarrow> raise AssertionError
                         | Some choosen \<Rightarrow>
                             (case cc_d s unchoosen_root of
                                None \<Rightarrow> raise AssertionError
                              | Some unchoosen \<Rightarrow>
                                  bindr (find_uf vertice1 parent3) (\<lambda>(found1, parent4).
                                  bindr (find_uf vertice2 parent4) (\<lambda>(found2, parent5).
                                    if found1 = found2 then
                                      ok (parent5,
                                          ((cc_d s)(choosen_root \<mapsto> choosen \<union> unchoosen))
                                            (unchoosen_root := None))
                                    else raise AssertionError))))
                    | None \<Rightarrow> ok (parent3, cc_d s))
                   (\<lambda>(parent6, cc6).
                      ok (s\<lparr>minspantree := insert edge (minspantree s),
                             parent_d := parent6, rank_d := rank3, cc_d := cc6,
                             union_performed := union_performed s + 1\<rparr>)))
          else ok (s\<lparr>parent_d := parent2\<rparr>))))"

fun clustering_loop :: "int \<Rightarrow> 'v edge list \<Rightarrow> 'v clocals \<Rightarrow> 'v clocals outcome" where
  "clustering_loop nb_unions [] s = ok s"
| "clustering_loop nb_unions (edge # rest) s =
     (if union_performed s > nb_unions then ok s
      else bindr (clustering_body s edge) (clustering_loop nb_unions rest))"

definition clustering_init :: "'v edge list \<Rightarrow> 'v clocals" where
  "clustering_init edges =
     (case init_dicts (vertices edges) of (parent, rank, cc) \<Rightarrow>
        \<lparr>minspantree = {}, parent_d = parent, rank_d = rank, cc_d = cc,
         union_performed = 1\<rparr>)"

definition clustering_run :: "'v::linorder edge list \<Rightarrow> int \<Rightarrow> 'v clocals outcome" where
  "clustering_run edges nb_clusters =
     (let nb_unions = int (length (vertices edges)) - nb_clusters
      in clustering_loop nb_unions (sort edges) (clustering_init edges))"

definition clustering ::
  "'v::linorder pytuple list \<Rightarrow> int \<Rightarrow> ('v edge set \<times> ('v \<rightharpoonup> 'v set)) outcome" where
  "clustering edges nb_clusters =
     (if \<not> list_all (\<lambda>edge. len edge = 3) edges then raise ValueError
      else bindr (unpack_all edges) (\<lambda>es.
           bindr (clustering_run es nb_clusters) (\<lambda>s. ok (minspantree s, cc_d s))))"

section \<open>The example graph of the driver\<close>

definition graph :: "string edge list" where
  "graph = [(1, ''A'', ''S''), (5, ''A'', ''B''), (6, ''A'', ''C''), (3, ''S'', ''C''),
            (2, ''C'', ''D''), (3, ''B'', ''D''), (2, ''E'', ''B''), (4, ''E'', ''D'')]"

section \<open>Specification notions\<close>

subsection \<open>Graphs given by a set of edges\<close>

text \<open>
  The graph of a set of edges is undirected: an edge \<open>(w, a, b)\<close> joins \<open>a\<close> and \<open>b\<close> in both
  directions. Two vertices are connected when a path of edges leads from one to the other;
  every vertex is connected to itself.
\<close>

definition und :: "'v edge set \<Rightarrow> ('v \<times> 'v) set" where
  "und E = {(a, b). \<exists>w. (w, a, b) \<in> E \<or> (w, b, a) \<in> E}"

definition connected_in :: "'v edge set \<Rightarrow> ('v \<times> 'v) set" where
  "connected_in E = (und E)\<^sup>*"

text \<open>The vertices an edge set touches.\<close>

definition verts :: "'v edge set \<Rightarrow> 'v set" where
  "verts E = (\<lambda>(w, a, b). a) ` E \<union> (\<lambda>(w, a, b). b) ` E"

text \<open>The connected components of the vertices \<open>V\<close> in the graph of \<open>E\<close>.\<close>

definition components :: "'v set \<Rightarrow> 'v edge set \<Rightarrow> 'v set set" where
  "components V E = (\<lambda>v. connected_in E `` {v}) ` V"

text \<open>A graph is connected when it has a vertex and all its vertices are connected.\<close>

definition connected_graph :: "'v edge set \<Rightarrow> bool" where
  "connected_graph E \<longleftrightarrow>
     verts E \<noteq> {} \<and> (\<forall>a\<in>verts E. \<forall>b\<in>verts E. (a, b) \<in> connected_in E)"

text \<open>
  A forest has no cycle: no edge joins two vertices that the other edges already connect. A
  spanning forest of \<open>E\<close> is a forest of edges of \<open>E\<close> that connects the same vertices as \<open>E\<close>.
\<close>

definition forest :: "'v edge set \<Rightarrow> bool" where
  "forest T \<longleftrightarrow> (\<forall>e\<in>T. (fst (snd e), snd (snd e)) \<notin> connected_in (T - {e}))"

definition spanning_forest :: "'v edge set \<Rightarrow> 'v edge set \<Rightarrow> bool" where
  "spanning_forest T E \<longleftrightarrow> T \<subseteq> E \<and> forest T \<and> connected_in T = connected_in E"

definition total_weight :: "'v edge set \<Rightarrow> int" where
  "total_weight T = (\<Sum>e\<in>T. fst e)"

subsection \<open>Disjoint-set states\<close>

text \<open>
  \<open>root_of parent v r\<close>: following \<^verbatim>\<open>parent\<close> from \<open>v\<close> ends at \<open>r\<close>, a vertex that is its own
  parent. In a disjoint-set state every key of \<^verbatim>\<open>parent\<close> has such a root and \<^verbatim>\<open>rank\<close> has
  the same keys.
\<close>

inductive root_of :: "('v \<rightharpoonup> 'v) \<Rightarrow> 'v \<Rightarrow> 'v \<Rightarrow> bool" for parent where
  root_self: "parent v = Some v \<Longrightarrow> root_of parent v v"
| root_step: "parent v = Some p \<Longrightarrow> p \<noteq> v \<Longrightarrow> root_of parent p r \<Longrightarrow> root_of parent v r"

definition disjoint_set :: "('v \<rightharpoonup> 'v) \<Rightarrow> ('v \<rightharpoonup> nat) \<Rightarrow> bool" where
  "disjoint_set parent rank \<longleftrightarrow>
     (\<forall>v\<in>dom parent. \<exists>r. root_of parent v r) \<and> dom rank = dom parent"

definition same_root :: "('v \<rightharpoonup> 'v) \<Rightarrow> 'v \<Rightarrow> 'v \<Rightarrow> bool" where
  "same_root parent a b \<longleftrightarrow> (\<exists>r. root_of parent a r \<and> root_of parent b r)"

text \<open>
  A union that merges two components makes exactly one root a child of another vertex, and
  nothing else ever turns a root into a child (lemmas \<open>union_uf_performed\<close> and
  \<open>find_uf_performed\<close> below): the unions performed so far are counted by the vertices that
  are no longer their own parent.
\<close>

definition unions_performed :: "('v \<rightharpoonup> 'v) \<Rightarrow> nat" where
  "unions_performed parent = card {v \<in> dom parent. parent v \<noteq> Some v}"

text \<open>
  The dictionary \<^verbatim>\<open>cc\<close> partitions \<open>V\<close>: its member sets cover exactly \<open>V\<close>, none is empty,
  and the member sets of two different keys have no vertex in common.
\<close>

definition partitions :: "('v \<rightharpoonup> 'v set) \<Rightarrow> 'v set \<Rightarrow> bool" where
  "partitions cc V \<longleftrightarrow>
     (\<forall>v. v \<in> V \<longleftrightarrow> (\<exists>r A. cc r = Some A \<and> v \<in> A))
     \<and> (\<forall>r A. cc r = Some A \<longrightarrow> A \<noteq> {})
     \<and> (\<forall>r1 r2 A B. cc r1 = Some A \<and> cc r2 = Some B \<and> r1 \<noteq> r2 \<longrightarrow> A \<inter> B = {})"

text \<open>
  What the specification says of the number of accepted edges, as a property of the state in
  which a run ends: one edge fewer than the unions performed.
\<close>

definition one_edge_fewer :: "('v, 'a) locals_scheme \<Rightarrow> bool" where
  "one_edge_fewer s \<longleftrightarrow> card (minspantree s) + 1 = unions_performed (parent_d s)"

section \<open>Auxiliary definitions of the proofs\<close>

text \<open>
  Kruskal's algorithm on the edges alone: an edge is kept when its endpoints are not yet
  connected by the edges kept before it.
\<close>

definition kstep :: "'v edge set \<Rightarrow> 'v edge \<Rightarrow> 'v edge set" where
  "kstep acc e = (if (fst (snd e), snd (snd e)) \<in> connected_in acc then acc else insert e acc)"

definition kruskal :: "'v edge list \<Rightarrow> 'v edge set" where
  "kruskal xs = foldl kstep {} xs"

text \<open>The same, stopping as the loop of \<^verbatim>\<open>clustering\<close> does.\<close>

fun kbudget :: "int \<Rightarrow> 'v edge list \<Rightarrow> 'v edge set \<Rightarrow> 'v edge set" where
  "kbudget nb [] acc = acc"
| "kbudget nb (e # xs) acc =
     (if int (card acc) + 1 > nb then acc else kbudget nb xs (kstep acc e))"

text \<open>\<open>absorbs parent parent' s t\<close>: in \<open>parent'\<close> the component of root \<open>t\<close> has joined that of \<open>s\<close>.\<close>

definition absorbs :: "('v \<rightharpoonup> 'v) \<Rightarrow> ('v \<rightharpoonup> 'v) \<Rightarrow> 'v \<Rightarrow> 'v \<Rightarrow> bool" where
  "absorbs parent parent' s t \<longleftrightarrow>
     (\<forall>u x. root_of parent' u x \<longleftrightarrow> (\<exists>y. root_of parent u y \<and> x = (if y = t then s else y)))"

text \<open>
  The invariant of both loops: the dictionaries are a disjoint-set state over the vertices
  \<open>V\<close>, two vertices have the same root exactly when the accepted edges connect them, and
  every accepted edge has cost one root.
\<close>

definition uf_tracks :: "'v set \<Rightarrow> ('v \<rightharpoonup> 'v) \<Rightarrow> ('v \<rightharpoonup> nat) \<Rightarrow> 'v edge set \<Rightarrow> bool" where
  "uf_tracks V parent rank acc \<longleftrightarrow>
     finite V \<and> dom parent = V \<and> dom rank = V
     \<and> (\<forall>v\<in>V. \<exists>r. root_of parent v r)
     \<and> (\<forall>a\<in>V. \<forall>b\<in>V. same_root parent a b \<longleftrightarrow> (a, b) \<in> connected_in acc)
     \<and> verts acc \<subseteq> V \<and> finite acc
     \<and> card acc + card {r. parent r = Some r} = card V"

definition tracks :: "'v set \<Rightarrow> ('v, 'a) locals_scheme \<Rightarrow> bool" where
  "tracks V s \<longleftrightarrow> uf_tracks V (parent_d s) (rank_d s) (minspantree s)"

text \<open>\<^verbatim>\<open>cc\<close> has the roots as keys, each with the vertices of its component.\<close>

definition members_of :: "('v \<rightharpoonup> 'v) \<Rightarrow> ('v \<rightharpoonup> 'v set) \<Rightarrow> bool" where
  "members_of parent cc \<longleftrightarrow>
     (\<forall>r. cc r = (if parent r = Some r then Some {v. root_of parent v r} else None))"

definition cl_inv :: "'v set \<Rightarrow> 'v clocals \<Rightarrow> bool" where
  "cl_inv V s \<longleftrightarrow> tracks V s \<and> members_of (parent_d s) (cc_d s)
     \<and> union_performed s = int (card (minspantree s)) + 1"

section \<open>Roots and path compression\<close>

lemma root_of_root: "root_of parent v r \<Longrightarrow> parent r = Some r"
  by (induction rule: root_of.induct) auto

lemma root_of_dom: "root_of parent v r \<Longrightarrow> v \<in> dom parent"
  by (induction rule: root_of.induct) auto

lemma root_of_unique: "root_of parent v r \<Longrightarrow> root_of parent v r' \<Longrightarrow> r = r'"
proof (induction arbitrary: r' rule: root_of.induct)
  case (root_self v)
  then show ?case by (auto elim: root_of.cases)
next
  case (root_step v p r)
  from root_step.prems root_step.hyps(1,2) have "root_of parent p r'"
    by (auto elim: root_of.cases)
  then show ?case by (rule root_step.IH)
qed

lemma root_of_at_root: "parent r = Some r \<Longrightarrow> root_of parent r s \<longleftrightarrow> s = r"
  by (auto intro: root_self elim: root_of.cases)

lemma root_of_compress_fwd:
  assumes vr: "root_of m v r" and us: "root_of m u s"
  shows "root_of (m(v \<mapsto> r)) u s"
proof (cases "v = r")
  case True
  with vr have "m(v \<mapsto> r) = m" by (auto dest: root_of_root intro: map_upd_triv)
  with us show ?thesis by simp
next
  case False
  have rr: "m r = Some r" using vr by (rule root_of_root)
  have vtop: "root_of (m(v \<mapsto> r)) v r"
    by (rule root_of.root_step[of _ _ r]) (use False rr in \<open>simp_all add: root_of.root_self\<close>)
  from us show ?thesis
  proof (induction rule: root_of.induct)
    case (root_self u)
    with False rr vr have "u \<noteq> v" by (auto simp: root_of_at_root)
    with root_self have "(m(v \<mapsto> r)) u = Some u" by simp
    then have "root_of (m(v \<mapsto> r)) u u" by (rule root_of.root_self)
    then show ?case .
  next
    case (root_step u p s)
    have "root_of (m(v \<mapsto> r)) u s"
    proof (cases "u = v")
      case True
      have "root_of m u s" using root_step.hyps by (auto intro: root_of.root_step)
      with True vr have "s = r" by (auto dest: root_of_unique)
      with vtop True show ?thesis by simp
    next
      case F: False
      with root_step.hyps have "(m(v \<mapsto> r)) u = Some p" by simp
      moreover note root_step.hyps(2)
      moreover have "root_of (m(v \<mapsto> r)) p s" using root_step.IH .
      ultimately show ?thesis by (rule root_of.root_step)
    qed
    then show ?case .
  qed
qed

lemma root_of_compress_bwd:
  assumes vr: "root_of m v r" and us: "root_of (m(v \<mapsto> r)) u s"
  shows "root_of m u s"
proof (cases "v = r")
  case True
  with vr have "m(v \<mapsto> r) = m" by (auto dest: root_of_root intro: map_upd_triv)
  with us show ?thesis by simp
next
  case False
  have rr: "m r = Some r" using vr by (rule root_of_root)
  from us show ?thesis
  proof (induction rule: root_of.induct)
    case (root_self u)
    with False have "u \<noteq> v" by auto
    with root_self have "m u = Some u" by simp
    then show ?case by (rule root_of.root_self)
  next
    case (root_step u p s)
    show ?case
    proof (cases "u = v")
      case True
      with root_step.hyps have "p = r" by simp
      with root_step.IH rr have "s = r" by (simp add: root_of_at_root)
      with True vr show ?thesis by simp
    next
      case F: False
      with root_step.hyps have "m u = Some p" by simp
      then show ?thesis using root_step.hyps(2) root_step.IH by (rule root_of.root_step)
    qed
  qed
qed

lemma root_of_compress: "root_of m v r \<Longrightarrow> root_of (m(v \<mapsto> r)) = root_of m"
  by (intro ext) (blast intro: root_of_compress_fwd root_of_compress_bwd)

lemma find_uf_root:
  assumes "root_of parent v r"
  shows "\<exists>parent'. find_uf v parent = Some (Inr (r, parent')) \<and> dom parent' = dom parent
           \<and> root_of parent' = root_of parent"
  using assms
proof (induction rule: root_of.induct)
  case (root_self v)
  then show ?case by (subst find_uf.simps) simp
next
  case (root_step v p r)
  then obtain parent1 where f: "find_uf p parent = Some (Inr (r, parent1))"
    and d: "dom parent1 = dom parent" and e: "root_of parent1 = root_of parent"
    by blast
  have "root_of parent v r" using root_step.hyps by (auto intro: root_of.root_step)
  then have "root_of parent1 v r" by (simp add: e)
  then have "root_of (parent1(v \<mapsto> r)) = root_of parent1" by (rule root_of_compress)
  moreover have "v \<in> dom parent" using root_step.hyps by auto
  ultimately show ?case using root_step.hyps f d e
    by (subst find_uf.simps) auto
qed

lemma root_of_link:
  assumes r1: "m r1 = Some r1" and r2: "m r2 = Some r2" and ne: "r1 \<noteq> r2"
  shows "root_of (m(r1 \<mapsto> r2)) u s \<longleftrightarrow> (\<exists>t. root_of m u t \<and> s = (if t = r1 then r2 else t))"
proof
  assume "root_of (m(r1 \<mapsto> r2)) u s"
  then show "\<exists>t. root_of m u t \<and> s = (if t = r1 then r2 else t)"
  proof (induction rule: root_of.induct)
    case (root_self u)
    with ne have "u \<noteq> r1" by auto
    with root_self have "m u = Some u" by simp
    then have "root_of m u u" by (rule root_of.root_self)
    with \<open>u \<noteq> r1\<close> show ?case by auto
  next
    case (root_step u p s)
    show ?case
    proof (cases "u = r1")
      case True
      with root_step.hyps have "p = r2" by simp
      with root_step.IH r2 have "s = r2" by (auto simp: root_of_at_root split: if_splits)
      moreover have "root_of m r1 r1" using r1 by (rule root_of.root_self)
      ultimately show ?thesis using True by auto
    next
      case False
      with root_step.hyps have mu: "m u = Some p" by simp
      from root_step.IH obtain t where t: "root_of m p t" and s: "s = (if t = r1 then r2 else t)"
        by blast
      from mu root_step.hyps(2) t have "root_of m u t" by (rule root_of.root_step)
      with s show ?thesis by blast
    qed
  qed
next
  assume "\<exists>t. root_of m u t \<and> s = (if t = r1 then r2 else t)"
  then obtain t where t: "root_of m u t" and s: "s = (if t = r1 then r2 else t)" by blast
  have r2top: "root_of (m(r1 \<mapsto> r2)) r2 r2"
    by (rule root_of.root_self) (use r2 ne in simp)
  have top: "root_of (m(r1 \<mapsto> r2)) r1 r2"
    by (rule root_of.root_step[of _ _ r2]) (use ne r2top in simp_all)
  from t have "root_of (m(r1 \<mapsto> r2)) u (if t = r1 then r2 else t)"
  proof (induction rule: root_of.induct)
    case (root_self u)
    have "root_of (m(r1 \<mapsto> r2)) u (if u = r1 then r2 else u)"
    proof (cases "u = r1")
      case True
      with top show ?thesis by simp
    next
      case False
      with root_self have "(m(r1 \<mapsto> r2)) u = Some u" by simp
      then have "root_of (m(r1 \<mapsto> r2)) u u" by (rule root_of.root_self)
      with False show ?thesis by simp
    qed
    then show ?case .
  next
    case (root_step u p t)
    with r1 have "u \<noteq> r1" by auto
    with root_step.hyps have "(m(r1 \<mapsto> r2)) u = Some p" by simp
    moreover note root_step.hyps(2)
    moreover have "root_of (m(r1 \<mapsto> r2)) p (if t = r1 then r2 else t)" using root_step.IH .
    ultimately have "root_of (m(r1 \<mapsto> r2)) u (if t = r1 then r2 else t)"
      by (rule root_of.root_step)
    then show ?case .
  qed
  with s show "root_of (m(r1 \<mapsto> r2)) u s" by simp
qed

section \<open>Connectivity, components and forests\<close>

lemma und_empty [simp]: "und {} = {}"
  by (simp add: und_def)

lemma und_insert: "und (insert (w, a, b) E) = insert (a, b) (insert (b, a) (und E))"
  by (auto simp: und_def)

lemma und_mono: "E \<subseteq> E' \<Longrightarrow> und E \<subseteq> und E'"
  by (auto simp: und_def)

lemma sym_und: "sym (und E)"
  by (auto simp: und_def sym_def)

lemma connected_in_empty [simp]: "connected_in {} = Id"
  by (simp add: connected_in_def)

lemma connected_in_refl [simp]: "(a, a) \<in> connected_in E"
  by (simp add: connected_in_def)

lemma connected_in_sym: "(a, b) \<in> connected_in E \<Longrightarrow> (b, a) \<in> connected_in E"
  unfolding connected_in_def using sym_und[of E] by (meson sym_rtrancl symD)

lemma connected_in_trans:
  "(a, b) \<in> connected_in E \<Longrightarrow> (b, c) \<in> connected_in E \<Longrightarrow> (a, c) \<in> connected_in E"
  unfolding connected_in_def by (rule rtrancl_trans)

lemma connected_in_mono: "E \<subseteq> E' \<Longrightarrow> connected_in E \<subseteq> connected_in E'"
  unfolding connected_in_def by (intro rtrancl_mono und_mono)

lemma connected_in_edge: "(w, a, b) \<in> E \<Longrightarrow> (a, b) \<in> connected_in E"
  unfolding connected_in_def und_def by auto

lemma connected_in_closed:
  assumes "und E \<subseteq> connected_in F"
  shows "connected_in E \<subseteq> connected_in F"
proof -
  have "(und E)\<^sup>* \<subseteq> ((und F)\<^sup>*)\<^sup>*"
    using assms unfolding connected_in_def by (rule rtrancl_mono)
  then show ?thesis by (simp add: connected_in_def)
qed

lemma connected_in_insert_iff:
  "(x, y) \<in> connected_in (insert (w, a, b) E) \<longleftrightarrow>
     (x, y) \<in> connected_in E
     \<or> ((x, a) \<in> connected_in E \<and> (b, y) \<in> connected_in E)
     \<or> ((x, b) \<in> connected_in E \<and> (a, y) \<in> connected_in E)"
    (is "?L \<longleftrightarrow> ?R x y")
proof
  assume ?L
  then have "(x, y) \<in> (insert (a, b) (insert (b, a) (und E)))\<^sup>*"
    by (simp add: connected_in_def und_insert)
  then show "?R x y"
  proof (induction rule: rtrancl_induct)
    case base
    then show ?case by simp
  next
    case (step y z)
    from step.hyps(2) consider "(y, z) \<in> und E" | "y = a" "z = b" | "y = b" "z = a" by auto
    then show ?case
    proof cases
      case 1
      then have yz: "(y, z) \<in> connected_in E" by (auto simp: connected_in_def)
      from step.IH show ?thesis
        using connected_in_trans[OF _ yz] by blast
    next
      case 2
      with step.IH show ?thesis
        by (metis connected_in_refl connected_in_sym connected_in_trans)
    next
      case 3
      with step.IH show ?thesis
        by (metis connected_in_refl connected_in_sym connected_in_trans)
    qed
  qed
next
  let ?E' = "insert (w, a, b) E"
  have sub: "connected_in E \<subseteq> connected_in ?E'" by (rule connected_in_mono) auto
  have ab: "(a, b) \<in> connected_in ?E'" by (rule connected_in_edge[of w]) simp
  then have ba: "(b, a) \<in> connected_in ?E'" by (rule connected_in_sym)
  assume "?R x y"
  then show ?L
    using sub ab ba by (meson connected_in_trans subsetD)
qed

lemma connected_in_insert_absorb:
  assumes "(a, b) \<in> connected_in E"
  shows "connected_in (insert (w, a, b) E) = connected_in E"
proof -
  have "(x, y) \<in> connected_in (insert (w, a, b) E) \<longleftrightarrow> (x, y) \<in> connected_in E" for x y
    unfolding connected_in_insert_iff
    using assms by (meson connected_in_sym connected_in_trans)
  then show ?thesis by auto
qed

lemma connected_in_verts:
  assumes "(a, b) \<in> connected_in E" and "a \<noteq> b"
  shows "a \<in> verts E \<and> b \<in> verts E"
proof -
  have "(a, b) \<in> (und E)\<^sup>*" using assms(1) by (simp add: connected_in_def)
  then have "a = b \<or> (a \<in> verts E \<and> b \<in> verts E)"
  proof (induction rule: rtrancl_induct)
    case base
    then show ?case by simp
  next
    case (step y z)
    from step.hyps(2) have "y \<in> verts E \<and> z \<in> verts E"
      by (force simp: und_def verts_def)
    with step.IH show ?case by auto
  qed
  with assms(2) show ?thesis by simp
qed

subsection \<open>Counting components\<close>

lemma components_empty: "components V {} = (\<lambda>v. {v}) ` V"
  by (simp add: components_def)

lemma card_components_empty: "card (components V {}) = card V"
  unfolding components_empty by (rule card_image) simp

lemma finite_components: "finite V \<Longrightarrow> finite (components V E)"
  by (simp add: components_def)

lemma class_eq_iff:
  "connected_in E `` {x} = connected_in E `` {y} \<longleftrightarrow> (x, y) \<in> connected_in E"
proof
  assume "connected_in E `` {x} = connected_in E `` {y}"
  moreover have "y \<in> connected_in E `` {y}" by simp
  ultimately show "(x, y) \<in> connected_in E" by blast
next
  assume "(x, y) \<in> connected_in E"
  then show "connected_in E `` {x} = connected_in E `` {y}"
    by (auto intro: connected_in_trans connected_in_sym)
qed

lemma components_coarser:
  assumes sub: "connected_in E \<subseteq> connected_in F" and fin: "finite V"
  shows "card (components V F) \<le> card (components V E)"
proof -
  have "connected_in F `` (connected_in E `` {v}) = connected_in F `` {v}" for v
    using sub by (auto intro: connected_in_trans)
  then have "components V F = (\<lambda>X. connected_in F `` X) ` components V E"
    by (simp add: components_def image_image)
  then show ?thesis
    using fin by (simp add: finite_components card_image_le)
qed

lemma components_merge:
  assumes fin: "finite V" and a: "a \<in> V" and b: "b \<in> V"
    and nc: "(a, b) \<notin> connected_in E"
  shows "Suc (card (components V (insert (w, a, b) E))) = card (components V E)"
proof -
  let ?f = "\<lambda>v. connected_in E `` {v}"
  let ?E' = "insert (w, a, b) E"
  let ?g = "\<lambda>X. connected_in ?E' `` X"
  have sub: "connected_in E \<subseteq> connected_in ?E'" by (rule connected_in_mono) auto
  have gf: "?g (?f v) = connected_in ?E' `` {v}" for v
    using sub by (auto intro: connected_in_trans)
  have img: "components V ?E' = ?g ` components V E"
    by (simp add: components_def image_image gf)
  have ne: "?f a \<noteq> ?f b" using nc by (simp add: class_eq_iff)
  have fa: "?f a \<in> components V E" and fb: "?f b \<in> components V E"
    using a b by (auto simp: components_def)
  have gab: "?g (?f a) = ?g (?f b)"
    unfolding gf class_eq_iff by (rule connected_in_edge[of w]) simp
  have img2: "?g ` components V E = ?g ` (components V E - {?f b})"
  proof -
    have mem: "?g (?f b) \<in> ?g ` (components V E - {?f b})"
      using fa ne gab by (metis DiffI imageI singletonD)
    have "components V E = insert (?f b) (components V E - {?f b})" using fb by blast
    then have "?g ` components V E = insert (?g (?f b)) (?g ` (components V E - {?f b}))"
      by (metis image_insert)
    with mem show ?thesis by (metis insert_absorb)
  qed
  have inj: "inj_on ?g (components V E - {?f b})"
  proof (rule inj_onI)
    fix X Y
    assume X: "X \<in> components V E - {?f b}" and Y: "Y \<in> components V E - {?f b}"
      and eq: "?g X = ?g Y"
    from X obtain x where x: "X = ?f x" "?f x \<noteq> ?f b" by (auto simp: components_def)
    from Y obtain y where y: "Y = ?f y" "?f y \<noteq> ?f b" by (auto simp: components_def)
    from eq have "(x, y) \<in> connected_in ?E'" unfolding x y gf class_eq_iff .
    then have "(x, y) \<in> connected_in E"
      unfolding connected_in_insert_iff
      using x(2) y(2) unfolding class_eq_iff by (meson connected_in_sym)
    then show "X = Y" unfolding x y class_eq_iff .
  qed
  have "card (components V ?E') = card (components V E - {?f b})"
    unfolding img img2 using inj by (rule card_image)
  also have "\<dots> = card (components V E) - 1"
    using fb by (simp add: finite_components fin)
  finally show ?thesis
    using fb fin by (metis Suc_pred' card_gt_0_iff empty_iff finite_components)
qed

subsection \<open>Forests\<close>

lemma forest_empty [simp]: "forest {}"
  by (simp add: forest_def)

lemma forest_subset:
  assumes "forest T" and "S \<subseteq> T"
  shows "forest S"
  unfolding forest_def
proof
  fix e assume e: "e \<in> S"
  have "connected_in (S - {e}) \<subseteq> connected_in (T - {e})"
    using assms(2) by (intro connected_in_mono) auto
  moreover have "(fst (snd e), snd (snd e)) \<notin> connected_in (T - {e})"
    using assms e by (auto simp: forest_def)
  ultimately show "(fst (snd e), snd (snd e)) \<notin> connected_in (S - {e})" by blast
qed

lemma forest_insert:
  assumes T: "forest T" and nc: "(a, b) \<notin> connected_in T"
  shows "forest (insert (w, a, b) T)"
  unfolding forest_def
proof
  fix e assume e: "e \<in> insert (w, a, b) T"
  have notin: "(w, a, b) \<notin> T" using nc connected_in_edge by fast
  show "(fst (snd e), snd (snd e)) \<notin> connected_in (insert (w, a, b) T - {e})"
  proof (cases "e = (w, a, b)")
    case True
    with notin nc show ?thesis by simp
  next
    case False
    obtain w' c d where e': "e = (w', c, d)" by (cases e)
    from False e have eT: "e \<in> T" by auto
    have eq: "insert (w, a, b) T - {e} = insert (w, a, b) (T - {e})" using False by auto
    have cd: "(c, d) \<notin> connected_in (T - {e})" using T eT by (force simp: forest_def e')
    have full: "connected_in (insert (w', c, d) (T - {e})) = connected_in T"
      using eT by (simp add: insert_absorb e')
    show ?thesis
    proof
      assume "(fst (snd e), snd (snd e)) \<in> connected_in (insert (w, a, b) T - {e})"
      then have "(c, d) \<in> connected_in (insert (w, a, b) (T - {e}))"
        unfolding eq by (simp add: e')
      then consider "(c, a) \<in> connected_in (T - {e})" "(b, d) \<in> connected_in (T - {e})"
        | "(c, b) \<in> connected_in (T - {e})" "(a, d) \<in> connected_in (T - {e})"
        using cd unfolding connected_in_insert_iff by blast
      then have "(a, b) \<in> connected_in (insert (w', c, d) (T - {e}))"
        unfolding connected_in_insert_iff by cases (meson connected_in_sym)+
      with full nc show False by simp
    qed
  qed
qed

lemma forest_count:
  assumes "finite T" and "forest T" and "verts T \<subseteq> V" and "finite V"
  shows "card T + card (components V T) = card V"
  using assms
proof (induction T rule: finite_induct)
  case empty
  then show ?case by (simp add: card_components_empty)
next
  case (insert e T)
  obtain w a b where e: "e = (w, a, b)" by (cases e)
  have fT: "forest T" using insert.prems(1) by (rule forest_subset) auto
  have vT: "verts T \<subseteq> V" using insert.prems(2) by (auto simp: verts_def)
  have ab: "a \<in> V" "b \<in> V" using insert.prems(2) by (auto simp: verts_def e)
  have "(a, b) \<notin> connected_in (insert e T - {e})"
    using insert.prems(1) unfolding forest_def e by force
  then have nc: "(a, b) \<notin> connected_in T" using insert.hyps(2) by simp
  have "Suc (card (components V (insert e T))) = card (components V T)"
    unfolding e using insert.prems(3) ab nc by (rule components_merge)
  moreover have "card T + card (components V T) = card V"
    using fT vT insert.prems(3) by (rule insert.IH)
  ultimately show ?case using insert.hyps by simp
qed

section \<open>Kruskal on the edges alone\<close>

lemma kruskal_Nil [simp]: "kruskal [] = {}"
  by (simp add: kruskal_def)

lemma kruskal_snoc: "kruskal (xs @ [e]) = kstep (kruskal xs) e"
  by (simp add: kruskal_def)

lemma kstep_cases:
  obtains "(fst (snd e), snd (snd e)) \<in> connected_in acc" "kstep acc e = acc"
  | "(fst (snd e), snd (snd e)) \<notin> connected_in acc" "kstep acc e = insert e acc"
  by (auto simp: kstep_def)

lemma kruskal_subset: "kruskal xs \<subseteq> set xs"
  by (induction xs rule: rev_induct) (auto simp: kruskal_snoc kstep_def)

lemma finite_kruskal: "finite (kruskal xs)"
  using kruskal_subset by (rule finite_subset) simp

lemma forest_kruskal: "forest (kruskal xs)"
proof (induction xs rule: rev_induct)
  case Nil
  then show ?case by simp
next
  case (snoc e xs)
  obtain w a b where e: "e = (w, a, b)" by (cases e)
  show ?case
    unfolding kruskal_snoc
    by (rule kstep_cases[of e "kruskal xs"]) (use snoc in \<open>auto simp: e intro: forest_insert\<close>)
qed

lemma connected_in_kstep: "connected_in (kstep acc e) = connected_in (insert e acc)"
proof -
  obtain w a b where e: "e = (w, a, b)" by (cases e)
  show ?thesis
    by (rule kstep_cases[of e acc]) (auto simp: e connected_in_insert_absorb)
qed

lemma connected_in_cong_insert:
  assumes "connected_in E = connected_in F"
  shows "connected_in (insert e E) = connected_in (insert e F)"
proof -
  obtain w a b where e: "e = (w, a, b)" by (cases e)
  have "(x, y) \<in> connected_in (insert e E) \<longleftrightarrow> (x, y) \<in> connected_in (insert e F)" for x y
    unfolding e connected_in_insert_iff assms ..
  then show ?thesis by auto
qed

lemma connected_in_kruskal: "connected_in (kruskal xs) = connected_in (set xs)"
proof (induction xs rule: rev_induct)
  case Nil
  then show ?case by simp
next
  case (snoc e xs)
  have "connected_in (kruskal (xs @ [e])) = connected_in (insert e (kruskal xs))"
    by (simp add: kruskal_snoc connected_in_kstep)
  also have "\<dots> = connected_in (insert e (set xs))"
    using snoc by (rule connected_in_cong_insert)
  finally show ?case by simp
qed

lemma kruskal_light:
  assumes "sorted xs" and "(w, a, b) \<in> set xs"
  shows "(a, b) \<in> connected_in {f \<in> kruskal xs. fst f \<le> w}"
  using assms
proof (induction xs rule: rev_induct)
  case Nil
  then show ?case by simp
next
  case (snoc e xs)
  have sorted: "sorted xs" and le: "\<forall>f\<in>set xs. f \<le> e"
    using snoc.prems(1) by (auto simp: sorted_append)
  have grow: "kruskal xs \<subseteq> kruskal (xs @ [e])"
    by (auto simp: kruskal_snoc kstep_def)
  show ?case
  proof (cases "(w, a, b) \<in> set xs")
    case True
    with sorted have "(a, b) \<in> connected_in {f \<in> kruskal xs. fst f \<le> w}" by (rule snoc.IH)
    moreover have "connected_in {f \<in> kruskal xs. fst f \<le> w}
        \<subseteq> connected_in {f \<in> kruskal (xs @ [e]). fst f \<le> w}"
      using grow by (intro connected_in_mono) auto
    ultimately show ?thesis by blast
  next
    case False
    with snoc.prems(2) have e: "e = (w, a, b)" by simp
    show ?thesis
    proof (rule kstep_cases[of e "kruskal xs"])
      assume c: "(fst (snd e), snd (snd e)) \<in> connected_in (kruskal xs)"
        and k: "kstep (kruskal xs) e = kruskal xs"
      have "fst f \<le> w" if "f \<in> kruskal xs" for f
      proof -
        from that kruskal_subset have "f \<in> set xs" by blast
        with le have "f \<le> e" by blast
        then show ?thesis unfolding e by (cases f) (auto simp: less_eq_prod_def)
      qed
      then have "{f \<in> kruskal (xs @ [e]). fst f \<le> w} = kruskal xs"
        by (auto simp: kruskal_snoc k)
      with c show ?thesis by (simp add: e)
    next
      assume k: "kstep (kruskal xs) e = insert e (kruskal xs)"
      then have "(w, a, b) \<in> {f \<in> kruskal (xs @ [e]). fst f \<le> w}"
        by (simp add: kruskal_snoc e)
      then show ?thesis by (rule connected_in_edge)
    qed
  qed
qed

subsection \<open>Comparing total weights\<close>

lemma layer_cake:
  assumes "finite A" and "\<forall>e\<in>A. m \<le> fst e \<and> fst e < M"
  shows "(\<Sum>e\<in>A. fst e) = M * int (card A) - (\<Sum>t\<in>{m..<M}. int (card {e \<in> A. fst e \<le> t}))"
  using assms
proof (induction A rule: finite_induct)
  case empty
  then show ?case by simp
next
  case (insert e A)
  have bounds: "m \<le> fst e" "fst e < M" using insert.prems by auto
  have IH: "(\<Sum>e\<in>A. fst e) = M * int (card A) - (\<Sum>t\<in>{m..<M}. int (card {e \<in> A. fst e \<le> t}))"
    using insert.IH insert.prems by simp
  have split: "int (card {e' \<in> insert e A. fst e' \<le> t})
      = int (card {e' \<in> A. fst e' \<le> t}) + (if fst e \<le> t then 1 else 0)" for t
  proof (cases "fst e \<le> t")
    case True
    then have "{e' \<in> insert e A. fst e' \<le> t} = insert e {e' \<in> A. fst e' \<le> t}" by auto
    with insert.hyps True show ?thesis by simp
  next
    case False
    then have "{e' \<in> insert e A. fst e' \<le> t} = {e' \<in> A. fst e' \<le> t}" by auto
    with False show ?thesis by simp
  qed
  have "(\<Sum>t\<in>{m..<M}. (if fst e \<le> t then 1 else 0 :: int)) = int (card {t \<in> {m..<M}. fst e \<le> t})"
    by (simp add: sum.If_cases Int_def)
  also have "{t \<in> {m..<M}. fst e \<le> t} = {fst e..<M}" using bounds by auto
  also have "int (card {fst e..<M}) = M - fst e" using bounds by simp
  finally have ind: "(\<Sum>t\<in>{m..<M}. (if fst e \<le> t then 1 else 0 :: int)) = M - fst e" .
  have "(\<Sum>t\<in>{m..<M}. int (card {e' \<in> insert e A. fst e' \<le> t}))
      = (\<Sum>t\<in>{m..<M}. int (card {e' \<in> A. fst e' \<le> t}) + (if fst e \<le> t then 1 else 0))"
    by (rule sum.cong) (simp_all only: split)
  also have "\<dots> = (\<Sum>t\<in>{m..<M}. int (card {e' \<in> A. fst e' \<le> t})) + (M - fst e)"
    by (simp only: sum.distrib ind)
  finally have "(\<Sum>t\<in>{m..<M}. int (card {e' \<in> insert e A. fst e' \<le> t}))
      = (\<Sum>t\<in>{m..<M}. int (card {e' \<in> A. fst e' \<le> t})) + (M - fst e)" .
  moreover have "(\<Sum>e'\<in>insert e A. fst e') = fst e + (\<Sum>e'\<in>A. fst e')"
    using insert.hyps by simp
  moreover have "int (card (insert e A)) = int (card A) + 1"
    using insert.hyps by simp
  ultimately show ?case using IH by (simp only: algebra_simps)
qed

lemma weight_le_of_domination:
  fixes F T :: "'v edge set"
  assumes fF: "finite F" and fT: "finite T" and card: "card F = card T"
    and dom: "\<And>t. card {e \<in> T. fst e \<le> t} \<le> card {e \<in> F. fst e \<le> t}"
  shows "total_weight F \<le> total_weight T"
proof -
  let ?S = "insert 0 (fst ` (F \<union> T))"
  define m where "m = Min ?S"
  define M where "M = Max ?S + 1"
  have fin: "finite ?S" using fF fT by simp
  have b: "m \<le> fst e \<and> fst e < M" if "e \<in> F \<union> T" for e
  proof -
    from that have "fst e \<in> ?S" by blast
    with fin have "Min ?S \<le> fst e" "fst e \<le> Max ?S" by (auto intro: Min_le Max_ge)
    then show ?thesis by (simp add: m_def M_def)
  qed
  have F: "total_weight F = M * int (card F) - (\<Sum>t\<in>{m..<M}. int (card {e \<in> F. fst e \<le> t}))"
    unfolding total_weight_def using fF b by (intro layer_cake) auto
  have T: "total_weight T = M * int (card T) - (\<Sum>t\<in>{m..<M}. int (card {e \<in> T. fst e \<le> t}))"
    unfolding total_weight_def using fT b by (intro layer_cake) auto
  have "(\<Sum>t\<in>{m..<M}. int (card {e \<in> T. fst e \<le> t})) \<le> (\<Sum>t\<in>{m..<M}. int (card {e \<in> F. fst e \<le> t}))"
    by (intro sum_mono) (simp add: dom)
  with F T card show ?thesis by simp
qed

subsection \<open>The greedy forest is a minimum spanning forest\<close>

lemma verts_iff: "v \<in> verts E \<longleftrightarrow> (\<exists>w u. (w, v, u) \<in> E \<or> (w, u, v) \<in> E)"
  by (force simp: verts_def)

lemma verts_mono:
  assumes "E \<subseteq> E'"
  shows "verts E \<subseteq> verts E'"
proof
  fix v assume "v \<in> verts E"
  then obtain w u where "(w, v, u) \<in> E \<or> (w, u, v) \<in> E" unfolding verts_iff by blast
  with assms have "(w, v, u) \<in> E' \<or> (w, u, v) \<in> E'" by blast
  then show "v \<in> verts E'" unfolding verts_iff by blast
qed

lemma finite_verts: "finite E \<Longrightarrow> finite (verts E)"
  by (simp add: verts_def)

lemma kruskal_dominates:
  assumes sorted: "sorted xs" and TE: "T \<subseteq> set xs" and fT: "forest T"
  shows "card {e \<in> T. fst e \<le> t} \<le> card {e \<in> kruskal xs. fst e \<le> t}"
proof -
  let ?V = "verts (set xs)"
  let ?Tt = "{e \<in> T. fst e \<le> t}" and ?Ft = "{e \<in> kruskal xs. fst e \<le> t}"
  have finV: "finite ?V" by (simp add: finite_verts)
  have "?Tt \<subseteq> set xs" using TE by auto
  then have finT: "finite ?Tt" by (rule finite_subset) simp
  have finF: "finite ?Ft" using finite_kruskal[of xs] by simp
  have forT: "forest ?Tt" using fT by (rule forest_subset) auto
  have forF: "forest ?Ft" using forest_kruskal[of xs] by (rule forest_subset) auto
  have vT: "verts ?Tt \<subseteq> ?V" using TE by (intro verts_mono) auto
  have vF: "verts ?Ft \<subseteq> ?V" using kruskal_subset[of xs] by (intro verts_mono) auto
  have "und ?Tt \<subseteq> connected_in ?Ft"
  proof
    fix p assume "p \<in> und ?Tt"
    then obtain a b w where p: "p = (a, b)"
      and w: "(w, a, b) \<in> T \<or> (w, b, a) \<in> T" and wt: "w \<le> t"
      by (auto simp: und_def)
    have mono: "connected_in {f \<in> kruskal xs. fst f \<le> w} \<subseteq> connected_in ?Ft"
      using wt by (intro connected_in_mono) auto
    from w show "p \<in> connected_in ?Ft"
    proof
      assume "(w, a, b) \<in> T"
      with TE have "(w, a, b) \<in> set xs" by blast
      with sorted have "(a, b) \<in> connected_in {f \<in> kruskal xs. fst f \<le> w}" by (rule kruskal_light)
      with mono show ?thesis unfolding p by blast
    next
      assume "(w, b, a) \<in> T"
      with TE have "(w, b, a) \<in> set xs" by blast
      with sorted have "(b, a) \<in> connected_in {f \<in> kruskal xs. fst f \<le> w}" by (rule kruskal_light)
      with mono have "(b, a) \<in> connected_in ?Ft" by blast
      then show ?thesis unfolding p by (rule connected_in_sym)
    qed
  qed
  then have "connected_in ?Tt \<subseteq> connected_in ?Ft" by (rule connected_in_closed)
  then have "card (components ?V ?Ft) \<le> card (components ?V ?Tt)"
    using finV by (rule components_coarser)
  moreover have "card ?Tt + card (components ?V ?Tt) = card ?V"
    using finT forT vT finV by (rule forest_count)
  moreover have "card ?Ft + card (components ?V ?Ft) = card ?V"
    using finF forF vF finV by (rule forest_count)
  ultimately show ?thesis by linarith
qed

lemma spanning_forest_kruskal: "spanning_forest (kruskal xs) (set xs)"
  by (simp add: spanning_forest_def kruskal_subset forest_kruskal connected_in_kruskal)

lemma spanning_forest_card:
  assumes "spanning_forest T E" and "finite E"
  shows "card T + card (components (verts E) E) = card (verts E)"
proof -
  from assms have T: "T \<subseteq> E" "forest T" "connected_in T = connected_in E"
    by (auto simp: spanning_forest_def)
  have "card T + card (components (verts E) T) = card (verts E)"
  proof (rule forest_count)
    show "finite T" using T(1) assms(2) by (rule finite_subset)
    show "forest T" by (rule T(2))
    show "verts T \<subseteq> verts E" using T(1) by (rule verts_mono)
    show "finite (verts E)" using assms(2) by (rule finite_verts)
  qed
  then show ?thesis by (simp add: components_def T(3))
qed

lemma kruskal_minimal:
  assumes sorted: "sorted xs" and T: "spanning_forest T (set xs)"
  shows "total_weight (kruskal xs) \<le> total_weight T"
proof (rule weight_le_of_domination)
  show "finite (kruskal xs)" by (rule finite_kruskal)
  show "finite T" using T by (auto simp: spanning_forest_def intro: finite_subset)
  have "card (kruskal xs) + card (components (verts (set xs)) (set xs)) = card (verts (set xs))"
    using spanning_forest_kruskal by (rule spanning_forest_card) simp
  moreover have "card T + card (components (verts (set xs)) (set xs)) = card (verts (set xs))"
    using T by (rule spanning_forest_card) simp
  ultimately show "card (kruskal xs) = card T" by linarith
  show "card {e \<in> T. fst e \<le> t} \<le> card {e \<in> kruskal xs. fst e \<le> t}" for t
    using sorted T by (intro kruskal_dominates) (auto simp: spanning_forest_def)
qed

section \<open>The union\<close>

lemma bindr_ok [simp]: "bindr (ok x) f = f x"
  by (simp add: bindr_def ok_def)

lemma bindr_raise [simp]: "bindr (raise e) f = raise e"
  by (simp add: bindr_def raise_def)

lemma ok_neq_raise [simp]: "ok x \<noteq> raise e" "raise e \<noteq> ok x"
  by (simp_all add: ok_def raise_def)

lemma ok_inject [simp]: "ok x = ok y \<longleftrightarrow> x = y"
  by (simp add: ok_def)

lemma find_uf_ok:
  assumes "root_of parent v r"
  obtains parent' where "find_uf v parent = ok (r, parent')" "dom parent' = dom parent"
    "root_of parent' = root_of parent"
  using find_uf_root[OF assms] unfolding ok_def by blast

lemma is_root_iff: "parent v = Some v \<longleftrightarrow> root_of parent v v"
  by (auto intro: root_of.root_self dest: root_of_root)

lemma union_returning_choosen_spec:
  assumes ds: "dom rank = dom parent" and ra: "root_of parent a ra" and rb: "root_of parent b rb"
  shows "\<exists>res parent' rank'.
           union_returning_choosen a b parent rank = ok (res, parent', rank')
           \<and> dom parent' = dom parent \<and> dom rank' = dom rank
           \<and> (if ra = rb then res = None \<and> root_of parent' = root_of parent
              else \<exists>s t. res = Some (s, t) \<and> (s = ra \<and> t = rb \<or> s = rb \<and> t = ra)
                     \<and> absorbs parent parent' s t)"
proof -
  from ra obtain parent1 where f1: "find_uf a parent = ok (ra, parent1)"
    and d1: "dom parent1 = dom parent" and e1: "root_of parent1 = root_of parent"
    by (rule find_uf_ok)
  from rb have "root_of parent1 b rb" by (simp add: e1)
  then obtain parent2 where f2: "find_uf b parent1 = ok (rb, parent2)"
    and d2: "dom parent2 = dom parent1" and e2: "root_of parent2 = root_of parent1"
    by (rule find_uf_ok)
  have e: "root_of parent2 = root_of parent" by (simp add: e1 e2)
  have d: "dom parent2 = dom parent" by (simp add: d1 d2)
  show ?thesis
  proof (cases "ra = rb")
    case True
    then show ?thesis
      by (simp add: union_returning_choosen_def f1 f2 e d)
  next
    case False
    have pa: "parent2 ra = Some ra" using ra unfolding e[symmetric] by (rule root_of_root)
    have pb: "parent2 rb = Some rb" using rb unfolding e[symmetric] by (rule root_of_root)
    from pa pb d ds obtain rank1 rank2 where rk: "rank ra = Some rank1" "rank rb = Some rank2"
      by (metis domD domI)
    have dra: "ra \<in> dom parent" and drb: "rb \<in> dom parent" using pa pb d by auto
    show ?thesis
    proof (cases "rank1 > rank2")
      case True
      have "absorbs parent (parent2(rb \<mapsto> ra)) ra rb"
        unfolding absorbs_def e[symmetric] using root_of_link[OF pb pa] False by auto
      with True False dra drb show ?thesis
        by (simp add: union_returning_choosen_def f1 f2 rk d insert_absorb)
    next
      case F: False
      have ab: "absorbs parent (parent2(ra \<mapsto> rb)) rb ra"
        unfolding absorbs_def e[symmetric] using root_of_link[OF pa pb] False by auto
      have "dom (if rank1 = rank2 then rank(rb \<mapsto> rank2 + 1) else rank) = dom rank"
        using drb ds by (auto simp: insert_absorb)
      with ab F False dra drb show ?thesis
        by (simp add: union_returning_choosen_def f1 f2 rk d insert_absorb)
    qed
  qed
qed

lemma union_uf_conv:
  "union_uf a b parent rank =
     bindr (union_returning_choosen a b parent rank) (\<lambda>(res, parent', rank'). ok (parent', rank'))"
  by (auto simp: union_uf_def union_returning_choosen_def bindr_def ok_def raise_def
      split: option.splits sum.splits prod.splits)

lemma absorbs_root_of:
  assumes "absorbs parent parent' s t" and "root_of parent u y"
  shows "root_of parent' u (if y = t then s else y)"
  using assms unfolding absorbs_def by blast

lemma absorbs_total:
  assumes ab: "absorbs parent parent' s t" and d: "dom parent' = dom parent"
    and all: "\<forall>v\<in>dom parent. \<exists>r. root_of parent v r"
  shows "\<forall>v\<in>dom parent'. \<exists>r. root_of parent' v r"
  using assms by (metis absorbs_root_of)

lemma absorbs_same_root:
  assumes ab: "absorbs parent parent' s t"
    and s: "root_of parent s s" and t: "root_of parent t t"
  shows "same_root parent' x y \<longleftrightarrow>
     same_root parent x y \<or> (same_root parent x s \<or> same_root parent x t)
        \<and> (same_root parent y s \<or> same_root parent y t)"
proof -
  have root': "root_of parent' u r \<longleftrightarrow> (\<exists>z. root_of parent u z \<and> r = (if z = t then s else z))" for u r
    using ab unfolding absorbs_def by blast
  have sr: "same_root parent u s \<longleftrightarrow> root_of parent u s" for u
    unfolding same_root_def using s by (auto dest: root_of_unique)
  have tr: "same_root parent u t \<longleftrightarrow> root_of parent u t" for u
    unfolding same_root_def using t by (auto dest: root_of_unique)
  have L: "same_root parent' x y \<longleftrightarrow>
      (\<exists>zx zy. root_of parent x zx \<and> root_of parent y zy
         \<and> (if zx = t then s else zx) = (if zy = t then s else zy))"
    unfolding same_root_def root' by auto
  have R: "(if zx = t then s else zx) = (if zy = t then s else zy) \<longleftrightarrow>
      zx = zy \<or> (zx = s \<or> zx = t) \<and> (zy = s \<or> zy = t)" for zx zy
    by auto
  show ?thesis
  proof
    assume "same_root parent' x y"
    then obtain zx zy where z: "root_of parent x zx" "root_of parent y zy"
      and "zx = zy \<or> (zx = s \<or> zx = t) \<and> (zy = s \<or> zy = t)"
      unfolding L R by blast
    then show "same_root parent x y \<or> (same_root parent x s \<or> same_root parent x t)
        \<and> (same_root parent y s \<or> same_root parent y t)"
      unfolding sr tr unfolding same_root_def by blast
  next
    assume "same_root parent x y \<or> (same_root parent x s \<or> same_root parent x t)
        \<and> (same_root parent y s \<or> same_root parent y t)"
    then have "(\<exists>r. root_of parent x r \<and> root_of parent y r)
        \<or> (root_of parent x s \<or> root_of parent x t) \<and> (root_of parent y s \<or> root_of parent y t)"
      unfolding sr tr unfolding same_root_def .
    then show "same_root parent' x y"
      unfolding L R by blast
  qed
qed

lemma absorbs_roots:
  assumes ab: "absorbs parent parent' s t"
    and s: "root_of parent s s" and t: "root_of parent t t" and ne: "s \<noteq> t"
  shows "{r. parent' r = Some r} = {r. parent r = Some r} - {t}"
proof -
  have root': "root_of parent' u r \<longleftrightarrow> (\<exists>z. root_of parent u z \<and> r = (if z = t then s else z))" for u r
    using ab unfolding absorbs_def by blast
  have "root_of parent' r r \<longleftrightarrow> root_of parent r r \<and> r \<noteq> t" for r
    unfolding root' using s t ne by (metis root_of_unique)
  then show ?thesis unfolding is_root_iff by blast
qed

lemma absorbs_members:
  assumes ab: "absorbs parent parent' s t"
    and s: "root_of parent s s" and t: "root_of parent t t" and ne: "s \<noteq> t"
  shows "{v. root_of parent' v r} =
     (if r = s then {v. root_of parent v s} \<union> {v. root_of parent v t}
      else if r = t then {} else {v. root_of parent v r})"
proof -
  have root': "root_of parent' u r \<longleftrightarrow> (\<exists>z. root_of parent u z \<and> r = (if z = t then s else z))" for u r
    using ab unfolding absorbs_def by blast
  show ?thesis
    unfolding root' using ne by auto
qed

section \<open>The invariant of the loops\<close>

lemma uf_tracks_compress:
  assumes "uf_tracks V p rk acc" and "dom p' = dom p" and "root_of p' = root_of p"
  shows "uf_tracks V p' rk acc"
  using assms unfolding uf_tracks_def same_root_def is_root_iff by simp

lemma members_of_compress:
  assumes "members_of p cc" and "root_of p' = root_of p"
  shows "members_of p' cc"
  using assms unfolding members_of_def is_root_iff by simp

lemma same_root_rootI:
  assumes "root_of p a ra"
  shows "same_root p x ra \<longleftrightarrow> same_root p x a"
proof -
  have rr: "root_of p ra ra" using assms by (auto dest: root_of_root intro: root_of.root_self)
  have "same_root p x ra \<longleftrightarrow> root_of p x ra"
    unfolding same_root_def using rr by (auto dest: root_of_unique)
  moreover have "same_root p x a \<longleftrightarrow> root_of p x ra"
    unfolding same_root_def using assms by (auto dest: root_of_unique)
  ultimately show ?thesis by simp
qed

lemma uf_tracks_decide:
  assumes t: "uf_tracks V p rk acc" and a: "a \<in> V" and b: "b \<in> V"
    and ra: "root_of p a ra" and rb: "root_of p b rb"
  shows "ra = rb \<longleftrightarrow> (a, b) \<in> connected_in acc"
proof -
  have "same_root p a b \<longleftrightarrow> ra = rb"
    unfolding same_root_def using ra rb by (auto dest: root_of_unique)
  moreover have "same_root p a b \<longleftrightarrow> (a, b) \<in> connected_in acc"
    using t a b unfolding uf_tracks_def by blast
  ultimately show ?thesis by simp
qed

lemma uf_tracks_link:
  assumes t: "uf_tracks V p rk acc" and a: "a \<in> V" and b: "b \<in> V"
    and ra: "root_of p a ra" and rb: "root_of p b rb" and ne: "ra \<noteq> rb"
    and d: "dom p' = dom p" and dr: "dom rk' = dom rk"
    and ab: "absorbs p p' s t" and st: "s = ra \<and> t = rb \<or> s = rb \<and> t = ra"
  shows "uf_tracks V p' rk' (insert (w, a, b) acc)"
proof -
  from t have finV: "finite V" and domp: "dom p = V" and domr: "dom rk = V"
    and total: "\<forall>v\<in>V. \<exists>r. root_of p v r"
    and conn: "\<forall>x\<in>V. \<forall>y\<in>V. same_root p x y \<longleftrightarrow> (x, y) \<in> connected_in acc"
    and vs: "verts acc \<subseteq> V" and fin: "finite acc"
    and cnt: "card acc + card {r. p r = Some r} = card V"
    unfolding uf_tracks_def by auto
  have rs: "root_of p s s" and rt: "root_of p t t" and snt: "s \<noteq> t"
    using st ra rb ne by (auto dest: root_of_root intro: root_of.root_self)
  have nc: "(a, b) \<notin> connected_in acc"
    using uf_tracks_decide[OF t a b ra rb] ne by simp
  have notin: "(w, a, b) \<notin> acc" using nc connected_in_edge by fast
  have total': "\<forall>v\<in>V. \<exists>r. root_of p' v r"
    using total ab by (metis absorbs_root_of)
  have conn': "\<forall>x\<in>V. \<forall>y\<in>V. same_root p' x y \<longleftrightarrow> (x, y) \<in> connected_in (insert (w, a, b) acc)"
  proof (intro ballI)
    fix x y assume x: "x \<in> V" and y: "y \<in> V"
    have sa: "same_root p u ra \<longleftrightarrow> (u, a) \<in> connected_in acc" if "u \<in> V" for u
      using same_root_rootI[OF ra] conn that a by blast
    have sb: "same_root p u rb \<longleftrightarrow> (u, b) \<in> connected_in acc" if "u \<in> V" for u
      using same_root_rootI[OF rb] conn that b by blast
    have "same_root p' x y \<longleftrightarrow>
        same_root p x y \<or> (same_root p x ra \<or> same_root p x rb)
          \<and> (same_root p y ra \<or> same_root p y rb)"
      using absorbs_same_root[OF ab rs rt, of x y] st by auto
    also have "\<dots> \<longleftrightarrow> (x, y) \<in> connected_in acc
        \<or> ((x, a) \<in> connected_in acc \<or> (x, b) \<in> connected_in acc)
          \<and> ((y, a) \<in> connected_in acc \<or> (y, b) \<in> connected_in acc)"
      using conn x y sa sb by simp
    also have "\<dots> \<longleftrightarrow> (x, y) \<in> connected_in (insert (w, a, b) acc)"
      unfolding connected_in_insert_iff
      by (meson connected_in_sym connected_in_trans)
    finally show "same_root p' x y \<longleftrightarrow> (x, y) \<in> connected_in (insert (w, a, b) acc)" .
  qed
  have roots': "{r. p' r = Some r} = {r. p r = Some r} - {t}"
    using ab rs rt snt by (rule absorbs_roots)
  have tin: "t \<in> {r. p r = Some r}" using rt by (simp add: is_root_iff)
  have finr: "finite {r. p r = Some r}"
    using finV domp by (auto intro: finite_subset[of _ V])
  have "card {r. p' r = Some r} = card {r. p r = Some r} - 1"
    unfolding roots' using tin finr by simp
  moreover have "card {r. p r = Some r} > 0" using tin finr by (auto simp: card_gt_0_iff)
  moreover have "card (insert (w, a, b) acc) = Suc (card acc)" using notin fin by simp
  ultimately have cnt': "card (insert (w, a, b) acc) + card {r. p' r = Some r} = card V"
    using cnt by simp
  have vs': "verts (insert (w, a, b) acc) \<subseteq> V"
    using vs a b by (auto simp: verts_def)
  show ?thesis
    unfolding uf_tracks_def
    using finV d domp dr domr total' conn' vs' fin cnt' by simp
qed

lemma members_of_link:
  assumes M: "members_of p cc" and ab: "absorbs p p' s t"
    and rs: "root_of p s s" and rt: "root_of p t t" and ne: "s \<noteq> t"
  shows "\<exists>A B. cc s = Some A \<and> cc t = Some B
           \<and> members_of p' ((cc(s \<mapsto> A \<union> B))(t := None))"
proof -
  let ?A = "{v. root_of p v s}" and ?B = "{v. root_of p v t}"
  have cs: "cc s = Some ?A" and ct: "cc t = Some ?B"
    using M rs rt unfolding members_of_def is_root_iff by simp_all
  have roots: "p' r = Some r \<longleftrightarrow> p r = Some r \<and> r \<noteq> t" for r
    using absorbs_roots[OF ab rs rt ne] by blast
  have ps: "p s = Some s" using rs by (simp add: is_root_iff)
  have "members_of p' ((cc(s \<mapsto> ?A \<union> ?B))(t := None))"
    unfolding members_of_def
  proof
    fix r
    show "((cc(s \<mapsto> ?A \<union> ?B))(t := None)) r
        = (if p' r = Some r then Some {v. root_of p' v r} else None)"
      unfolding roots absorbs_members[OF ab rs rt ne]
      using M ne ps unfolding members_of_def by auto
  qed
  with cs ct show ?thesis by blast
qed

section \<open>One iteration\<close>

lemma tracks_root:
  assumes "tracks V s" and "a \<in> V"
  obtains ra where "root_of (parent_d s) a ra"
  using assms unfolding tracks_def uf_tracks_def by blast

lemma mst_body_ok:
  assumes t: "tracks V s" and a: "a \<in> V" and b: "b \<in> V"
  shows "\<exists>s'. mst_body s (w, a, b) = ok s' \<and> tracks V s'
           \<and> minspantree s' = kstep (minspantree s) (w, a, b) \<and> cc_d s' = cc_d s"
proof -
  let ?p = "parent_d s" and ?rk = "rank_d s" and ?acc = "minspantree s"
  have ut: "uf_tracks V ?p ?rk ?acc" using t by (simp add: tracks_def)
  from t a obtain ra where ra: "root_of ?p a ra" by (rule tracks_root)
  from t b obtain rb where rb: "root_of ?p b rb" by (rule tracks_root)
  from ra obtain p1 where f1: "find_uf a ?p = ok (ra, p1)"
    and d1: "dom p1 = dom ?p" and e1: "root_of p1 = root_of ?p"
    by (rule find_uf_ok)
  from rb have "root_of p1 b rb" by (simp add: e1)
  then obtain p2 where f2: "find_uf b p1 = ok (rb, p2)"
    and d2: "dom p2 = dom p1" and e2: "root_of p2 = root_of p1"
    by (rule find_uf_ok)
  have e: "root_of p2 = root_of ?p" and d: "dom p2 = dom ?p" by (simp_all add: e1 e2 d1 d2)
  have ut2: "uf_tracks V p2 ?rk ?acc" using ut d e by (rule uf_tracks_compress)
  have dec: "ra = rb \<longleftrightarrow> (a, b) \<in> connected_in ?acc"
    using ut a b ra rb by (rule uf_tracks_decide)
  show ?thesis
  proof (cases "ra = rb")
    case True
    have "tracks V (s\<lparr>parent_d := p2\<rparr>)" using ut2 by (simp add: tracks_def)
    with True dec show ?thesis
      by (simp add: mst_body_def f1 f2 kstep_def)
  next
    case False
    have ra2: "root_of p2 a ra" and rb2: "root_of p2 b rb" using ra rb by (simp_all add: e)
    have dr: "dom ?rk = dom p2" using ut2 by (simp add: uf_tracks_def)
    from union_returning_choosen_spec[OF dr ra2 rb2]
    obtain res p3 rk3 where u: "union_returning_choosen a b p2 ?rk = ok (res, p3, rk3)"
      and d3: "dom p3 = dom p2" and dr3: "dom rk3 = dom ?rk"
      and rest: "if ra = rb then res = None \<and> root_of p3 = root_of p2
          else \<exists>s t. res = Some (s, t) \<and> (s = ra \<and> t = rb \<or> s = rb \<and> t = ra)
                 \<and> absorbs p2 p3 s t"
      by blast
    from rest False obtain s0 t0 where res: "res = Some (s0, t0)"
      and st: "s0 = ra \<and> t0 = rb \<or> s0 = rb \<and> t0 = ra" and ab: "absorbs p2 p3 s0 t0"
      by auto
    have ut3: "uf_tracks V p3 rk3 (insert (w, a, b) ?acc)"
      using ut2 a b ra2 rb2 False d3 dr3 ab st by (rule uf_tracks_link)
    then have "tracks V (s\<lparr>minspantree := insert (w, a, b) ?acc, parent_d := p3, rank_d := rk3\<rparr>)"
      by (simp add: tracks_def)
    with False dec show ?thesis
      by (simp add: mst_body_def f1 f2 union_uf_conv u kstep_def)
  qed
qed

lemma clustering_body_ok:
  assumes t: "tracks V s" and m: "members_of (parent_d s) (cc_d s)" and a: "a \<in> V" and b: "b \<in> V"
  shows "\<exists>s'. clustering_body s (w, a, b) = ok s' \<and> tracks V s'
           \<and> members_of (parent_d s') (cc_d s')
           \<and> minspantree s' = kstep (minspantree s) (w, a, b)
           \<and> union_performed s' =
                union_performed s + (if (a, b) \<in> connected_in (minspantree s) then 0 else 1)
           \<and> ((a, b) \<in> connected_in (minspantree s) \<longrightarrow> cc_d s' = cc_d s)"
proof -
  let ?p = "parent_d s" and ?rk = "rank_d s" and ?acc = "minspantree s" and ?cc = "cc_d s"
  have ut: "uf_tracks V ?p ?rk ?acc" using t by (simp add: tracks_def)
  from t a obtain ra where ra: "root_of ?p a ra" by (rule tracks_root)
  from t b obtain rb where rb: "root_of ?p b rb" by (rule tracks_root)
  from ra obtain p1 where f1: "find_uf a ?p = ok (ra, p1)"
    and d1: "dom p1 = dom ?p" and e1: "root_of p1 = root_of ?p"
    by (rule find_uf_ok)
  from rb have "root_of p1 b rb" by (simp add: e1)
  then obtain p2 where f2: "find_uf b p1 = ok (rb, p2)"
    and d2: "dom p2 = dom p1" and e2: "root_of p2 = root_of p1"
    by (rule find_uf_ok)
  have e: "root_of p2 = root_of ?p" and d: "dom p2 = dom ?p" by (simp_all add: e1 e2 d1 d2)
  have ut2: "uf_tracks V p2 ?rk ?acc" using ut d e by (rule uf_tracks_compress)
  have m2: "members_of p2 ?cc" using m e by (rule members_of_compress)
  have dec: "ra = rb \<longleftrightarrow> (a, b) \<in> connected_in ?acc"
    using ut a b ra rb by (rule uf_tracks_decide)
  show ?thesis
  proof (cases "ra = rb")
    case True
    have "tracks V (s\<lparr>parent_d := p2\<rparr>)" using ut2 by (simp add: tracks_def)
    with True dec m2 show ?thesis
      by (simp add: clustering_body_def f1 f2 kstep_def)
  next
    case False
    have ra2: "root_of p2 a ra" and rb2: "root_of p2 b rb" using ra rb by (simp_all add: e)
    have dr: "dom ?rk = dom p2" using ut2 by (simp add: uf_tracks_def)
    from union_returning_choosen_spec[OF dr ra2 rb2]
    obtain res p3 rk3 where u: "union_returning_choosen a b p2 ?rk = ok (res, p3, rk3)"
      and d3: "dom p3 = dom p2" and dr3: "dom rk3 = dom ?rk"
      and rest: "if ra = rb then res = None \<and> root_of p3 = root_of p2
          else \<exists>s t. res = Some (s, t) \<and> (s = ra \<and> t = rb \<or> s = rb \<and> t = ra)
                 \<and> absorbs p2 p3 s t"
      by blast
    from rest False obtain s0 t0 where res: "res = Some (s0, t0)"
      and st: "s0 = ra \<and> t0 = rb \<or> s0 = rb \<and> t0 = ra" and ab: "absorbs p2 p3 s0 t0"
      by auto
    have rs: "root_of p2 s0 s0" and rt: "root_of p2 t0 t0" and snt: "s0 \<noteq> t0"
      using st ra2 rb2 False by (auto dest: root_of_root intro: root_of.root_self)
    from members_of_link[OF m2 ab rs rt snt]
    obtain A B where cs: "?cc s0 = Some A" and ct: "?cc t0 = Some B"
      and m3: "members_of p3 ((?cc(s0 \<mapsto> A \<union> B))(t0 := None))"
      by blast
    have a3: "root_of p3 a s0" using absorbs_root_of[OF ab ra2] st by auto
    have b3: "root_of p3 b s0" using absorbs_root_of[OF ab rb2] st by auto
    from a3 obtain p4 where f4: "find_uf a p3 = ok (s0, p4)"
      and d4: "dom p4 = dom p3" and e4: "root_of p4 = root_of p3"
      by (rule find_uf_ok)
    from b3 have "root_of p4 b s0" by (simp add: e4)
    then obtain p5 where f5: "find_uf b p4 = ok (s0, p5)"
      and d5: "dom p5 = dom p4" and e5: "root_of p5 = root_of p4"
      by (rule find_uf_ok)
    have e': "root_of p5 = root_of p3" and d': "dom p5 = dom p3" by (simp_all add: e4 e5 d4 d5)
    have ut3: "uf_tracks V p3 rk3 (insert (w, a, b) ?acc)"
      using ut2 a b ra2 rb2 False d3 dr3 ab st by (rule uf_tracks_link)
    then have ut5: "uf_tracks V p5 rk3 (insert (w, a, b) ?acc)"
      using d' e' by (rule uf_tracks_compress)
    have m5: "members_of p5 ((?cc(s0 \<mapsto> A \<union> B))(t0 := None))"
      using m3 e' by (rule members_of_compress)
    let ?s' = "s\<lparr>minspantree := insert (w, a, b) ?acc, parent_d := p5, rank_d := rk3,
                 cc_d := (?cc(s0 \<mapsto> A \<union> B))(t0 := None),
                 union_performed := union_performed s + 1\<rparr>"
    have run: "clustering_body s (w, a, b) = ok ?s'"
      using False by (simp add: clustering_body_def f1 f2 u res cs ct f4 f5)
    have "tracks V ?s'" using ut5 by (simp add: tracks_def)
    with run m5 False dec show ?thesis
      by (simp add: kstep_def)
  qed
qed

section \<open>The loops\<close>

subsection \<open>Initialisation\<close>

text \<open>
  The dictionaries after the initialisation depend on the set of vertices only, not on the
  order in which the set that \<^verbatim>\<open>_vertices\<close> returns is iterated.
\<close>

lemma fold_make_set:
  "fold make_set vs (parent, rank, cc) =
     (\<lambda>v. if v \<in> set vs then Some v else parent v,
      \<lambda>v. if v \<in> set vs then Some 0 else rank v,
      \<lambda>v. if v \<in> set vs then Some {v} else cc v)"
  by (induction vs arbitrary: parent rank cc) (auto simp: make_set_def fun_eq_iff)

lemma init_dicts_eq:
  "init_dicts vs =
     (\<lambda>v. if v \<in> set vs then Some v else None,
      \<lambda>v. if v \<in> set vs then Some 0 else None,
      \<lambda>v. if v \<in> set vs then Some {v} else None)"
  by (simp add: init_dicts_def fold_make_set)

lemma set_vertices: "set (vertices es) = verts (set es)"
  by (force simp: vertices_def verts_def)

lemma length_vertices: "length (vertices es) = card (verts (set es))"
proof -
  have "distinct (vertices es)" by (simp add: vertices_def)
  then have "card (set (vertices es)) = length (vertices es)" by (rule distinct_card)
  then show ?thesis by (simp add: set_vertices)
qed

lemma edge_in_verts: "(w, a, b) \<in> E \<Longrightarrow> a \<in> verts E \<and> b \<in> verts E"
  unfolding verts_iff by blast

lemma root_of_identity:
  "root_of (\<lambda>v. if v \<in> V then Some v else None) v r \<longleftrightarrow> v \<in> V \<and> r = v"
proof
  assume "root_of (\<lambda>v. if v \<in> V then Some v else None) v r"
  then show "v \<in> V \<and> r = v"
    by (induction rule: root_of.induct) (auto split: if_splits)
next
  assume "v \<in> V \<and> r = v"
  then have "(\<lambda>v. if v \<in> V then Some v else None) v = Some v" by simp
  then have "root_of (\<lambda>v. if v \<in> V then Some v else None) v v" by (rule root_of.root_self)
  with \<open>v \<in> V \<and> r = v\<close> show "root_of (\<lambda>v. if v \<in> V then Some v else None) v r" by simp
qed

lemma uf_tracks_init:
  assumes "finite V"
  shows "uf_tracks V (\<lambda>v. if v \<in> V then Some v else None) (\<lambda>v. if v \<in> V then Some 0 else None) {}"
proof -
  have "{r. (if r \<in> V then Some r else None) = Some r} = V" by auto
  moreover have "dom (\<lambda>v. if v \<in> V then Some v else None) = V"
    by (auto split: if_splits)
  moreover have "dom (\<lambda>v. if v \<in> V then Some (0::nat) else None) = V"
    by (auto split: if_splits)
  ultimately show ?thesis
    using assms unfolding uf_tracks_def same_root_def root_of_identity
    by (auto simp: verts_def)
qed

lemma members_of_init:
  "members_of (\<lambda>v. if v \<in> V then Some v else None) (\<lambda>v. if v \<in> V then Some {v} else None)"
  unfolding members_of_def root_of_identity by auto

lemma mst_init_eq:
  "mst_init es = \<lparr>minspantree = {},
      parent_d = (\<lambda>v. if v \<in> verts (set es) then Some v else None),
      rank_d = (\<lambda>v. if v \<in> verts (set es) then Some 0 else None),
      cc_d = (\<lambda>v. if v \<in> verts (set es) then Some {v} else None)\<rparr>"
  by (simp add: mst_init_def init_dicts_eq set_vertices)

lemma clustering_init_eq:
  "clustering_init es = \<lparr>minspantree = {},
      parent_d = (\<lambda>v. if v \<in> verts (set es) then Some v else None),
      rank_d = (\<lambda>v. if v \<in> verts (set es) then Some 0 else None),
      cc_d = (\<lambda>v. if v \<in> verts (set es) then Some {v} else None),
      union_performed = 1\<rparr>"
  by (simp add: clustering_init_def init_dicts_eq set_vertices)

lemma tracks_mst_init: "tracks (verts (set es)) (mst_init es)"
  unfolding tracks_def mst_init_eq using uf_tracks_init[of "verts (set es)"]
  by (simp add: finite_verts)

lemma tracks_clustering_init: "tracks (verts (set es)) (clustering_init es)"
  unfolding tracks_def clustering_init_eq using uf_tracks_init[of "verts (set es)"]
  by (simp add: finite_verts)

lemma members_of_clustering_init:
  "members_of (parent_d (clustering_init es)) (cc_d (clustering_init es))"
  unfolding clustering_init_eq using members_of_init[of "verts (set es)"] by simp

subsection \<open>The loop of \<^verbatim>\<open>minimum_spanning_tree\<close>\<close>

lemma mst_loop_ok:
  assumes "tracks V s" and "verts (set xs) \<subseteq> V"
  shows "\<exists>s'. mst_loop xs s = ok s' \<and> tracks V s'
           \<and> minspantree s' = foldl kstep (minspantree s) xs"
  using assms
proof (induction xs arbitrary: s)
  case Nil
  then show ?case by simp
next
  case (Cons e xs)
  obtain w a b where e: "e = (w, a, b)" by (cases e)
  have ab: "a \<in> V" "b \<in> V"
    using Cons.prems(2) edge_in_verts[of w a b "set (e # xs)"] by (auto simp: e)
  have sub: "verts (set xs) \<subseteq> V"
    using Cons.prems(2) verts_mono[of "set xs" "set (e # xs)"] by auto
  from mst_body_ok[OF Cons.prems(1) ab, of w]
  obtain s1 where b1: "mst_body s e = ok s1" and t1: "tracks V s1"
    and m1: "minspantree s1 = kstep (minspantree s) e"
    unfolding e by blast
  from Cons.IH[OF t1 sub]
  obtain s' where "mst_loop xs s1 = ok s'" "tracks V s'"
    "minspantree s' = foldl kstep (minspantree s1) xs"
    by blast
  then show ?case by (simp add: b1 m1)
qed

lemma mst_run_ok:
  "\<exists>s'. mst_run es = ok s' \<and> tracks (verts (set es)) s'
      \<and> minspantree s' = kruskal (sort es)"
proof -
  have "verts (set (sort es)) \<subseteq> verts (set es)" by simp
  from mst_loop_ok[OF tracks_mst_init this]
  show ?thesis by (simp add: mst_run_def kruskal_def mst_init_eq)
qed

lemma unpack_all_map_tuple3: "unpack_all (map tuple3 es) = ok es"
  by (induction es) (auto simp: tuple3_def)

lemma minimum_spanning_tree_eq:
  "minimum_spanning_tree (map tuple3 es) = ok (kruskal (sort es))"
proof -
  from mst_run_ok[of es] obtain s' where "mst_run es = ok s'"
    "minspantree s' = kruskal (sort es)" by blast
  then show ?thesis by (simp add: minimum_spanning_tree_def unpack_all_map_tuple3)
qed

subsection \<open>The loop of \<^verbatim>\<open>clustering\<close>\<close>

lemma cl_inv_init: "cl_inv (verts (set es)) (clustering_init es)"
  unfolding cl_inv_def using tracks_clustering_init[of es] members_of_clustering_init[of es]
  by (simp add: clustering_init_eq)

lemma kstep_card:
  assumes "finite acc"
  shows "card (kstep acc e) =
     card acc + (if (fst (snd e), snd (snd e)) \<in> connected_in acc then 0 else 1)"
proof (rule kstep_cases[of e acc])
  assume "(fst (snd e), snd (snd e)) \<in> connected_in acc" "kstep acc e = acc"
  then show ?thesis by simp
next
  assume nc: "(fst (snd e), snd (snd e)) \<notin> connected_in acc" and k: "kstep acc e = insert e acc"
  obtain w a b where e: "e = (w, a, b)" by (cases e)
  have "e \<notin> acc" using nc connected_in_edge[of w a b acc] by (auto simp: e)
  with assms nc k show ?thesis by simp
qed

lemma tracks_finite: "tracks V s \<Longrightarrow> finite (minspantree s)"
  by (simp add: tracks_def uf_tracks_def)

lemma clustering_step_ok:
  assumes inv: "cl_inv V s" and a: "a \<in> V" and b: "b \<in> V"
  shows "\<exists>s'. clustering_body s (w, a, b) = ok s' \<and> cl_inv V s'
           \<and> minspantree s' = kstep (minspantree s) (w, a, b)
           \<and> ((a, b) \<in> connected_in (minspantree s) \<longrightarrow> cc_d s' = cc_d s)"
proof -
  from inv have t: "tracks V s" and m: "members_of (parent_d s) (cc_d s)"
    and u: "union_performed s = int (card (minspantree s)) + 1"
    by (auto simp: cl_inv_def)
  from clustering_body_ok[OF t m a b, of w]
  obtain s' where r: "clustering_body s (w, a, b) = ok s'" and t': "tracks V s'"
    and m': "members_of (parent_d s') (cc_d s')"
    and k: "minspantree s' = kstep (minspantree s) (w, a, b)"
    and u': "union_performed s' =
        union_performed s + (if (a, b) \<in> connected_in (minspantree s) then 0 else 1)"
    and c: "(a, b) \<in> connected_in (minspantree s) \<longrightarrow> cc_d s' = cc_d s"
    by blast
  have "card (minspantree s') =
      card (minspantree s) + (if (a, b) \<in> connected_in (minspantree s) then 0 else 1)"
    unfolding k using kstep_card[OF tracks_finite[OF t], of "(w, a, b)"] by simp
  with u u' have "union_performed s' = int (card (minspantree s')) + 1" by simp
  with r t' m' k c show ?thesis by (auto simp: cl_inv_def)
qed

lemma clustering_loop_ok:
  assumes "cl_inv V s" and "verts (set xs) \<subseteq> V"
  shows "\<exists>s'. clustering_loop nb xs s = ok s' \<and> cl_inv V s'
           \<and> minspantree s' = kbudget nb xs (minspantree s)"
  using assms
proof (induction xs arbitrary: s)
  case Nil
  then show ?case by simp
next
  case (Cons e xs)
  obtain w a b where e: "e = (w, a, b)" by (cases e)
  have ab: "a \<in> V" "b \<in> V"
    using Cons.prems(2) edge_in_verts[of w a b "set (e # xs)"] by (auto simp: e)
  have sub: "verts (set xs) \<subseteq> V"
    using Cons.prems(2) verts_mono[of "set xs" "set (e # xs)"] by auto
  have u: "union_performed s = int (card (minspantree s)) + 1"
    using Cons.prems(1) by (simp add: cl_inv_def)
  show ?case
  proof (cases "union_performed s > nb")
    case True
    with Cons.prems(1) u show ?thesis by simp
  next
    case False
    from clustering_step_ok[OF Cons.prems(1) ab, of w]
    obtain s1 where b1: "clustering_body s e = ok s1" and i1: "cl_inv V s1"
      and m1: "minspantree s1 = kstep (minspantree s) e"
      unfolding e by blast
    from Cons.IH[OF i1 sub]
    obtain s' where "clustering_loop nb xs s1 = ok s'" "cl_inv V s'"
      "minspantree s' = kbudget nb xs (minspantree s1)"
      by blast
    with False u show ?thesis by (simp add: b1 m1)
  qed
qed

lemma clustering_loop_append:
  "clustering_loop nb (xs @ ys) s = bindr (clustering_loop nb xs s) (clustering_loop nb ys)"
proof (induction xs arbitrary: s)
  case Nil
  then show ?case by simp
next
  case (Cons e xs)
  show ?case
  proof (cases "union_performed s > nb")
    case True
    then show ?thesis by (cases ys) simp_all
  next
    case False
    have assoc: "bindr (bindr m f) g = bindr m (\<lambda>x. bindr (f x) g)" for m :: "'a clocals outcome"
      and f :: "'a clocals \<Rightarrow> 'a clocals outcome" and g :: "'a clocals \<Rightarrow> 'a clocals outcome"
      by (auto simp: bindr_def split: option.splits sum.splits)
    have "clustering_loop nb (xs @ ys)
        = (\<lambda>x. bindr (clustering_loop nb xs x) (clustering_loop nb ys))"
      by (rule ext) (rule Cons.IH)
    with False show ?thesis by (simp add: assoc)
  qed
qed

subsection \<open>The accepted edges, without the dictionaries\<close>

lemma foldl_kstep_finite: "finite acc \<Longrightarrow> finite (foldl kstep acc xs)"
  by (induction xs arbitrary: acc) (auto simp: kstep_def)

lemma foldl_kstep_grows: "acc \<subseteq> foldl kstep acc xs"
proof (induction xs arbitrary: acc)
  case Nil
  then show ?case by simp
next
  case (Cons e xs)
  have "acc \<subseteq> kstep acc e" by (auto simp: kstep_def)
  also have "\<dots> \<subseteq> foldl kstep (kstep acc e) xs" by (rule Cons.IH)
  finally show ?case by simp
qed

lemma kbudget_between: "acc \<subseteq> kbudget nb xs acc \<and> kbudget nb xs acc \<subseteq> foldl kstep acc xs"
proof (induction xs arbitrary: acc)
  case Nil
  then show ?case by simp
next
  case (Cons e xs)
  have "acc \<subseteq> kstep acc e" by (auto simp: kstep_def)
  with Cons[of "kstep acc e"] foldl_kstep_grows[of acc "e # xs"] show ?case by auto
qed

lemma kbudget_card:
  assumes "finite acc"
  shows "card (kbudget nb xs acc) = min (card (foldl kstep acc xs)) (max (card acc) (nat nb))"
  using assms
proof (induction xs arbitrary: acc)
  case Nil
  then show ?case by simp
next
  case (Cons e xs)
  have fin1: "finite (kstep acc e)" using Cons.prems by (auto simp: kstep_def)
  have le: "card acc \<le> card (foldl kstep acc (e # xs))"
    using foldl_kstep_grows[of acc "e # xs"] foldl_kstep_finite[OF Cons.prems, of "e # xs"]
    by (rule card_mono[rotated])
  show ?case
  proof (cases "int (card acc) + 1 > nb")
    case True
    then have "nat nb \<le> card acc" by linarith
    with True le show ?thesis by simp
  next
    case False
    then have lt: "card acc < nat nb" by linarith
    have "card (kstep acc e) \<le> card acc + 1"
      using kstep_card[OF Cons.prems, of e] by simp
    with lt have "max (card (kstep acc e)) (nat nb) = max (card acc) (nat nb)" by simp
    with False Cons.IH[OF fin1] show ?thesis by simp
  qed
qed

section \<open>The public functions\<close>

lemma list_all_len_tuple3: "list_all (\<lambda>edge. len edge = 3) (map tuple3 es)"
  by (induction es) (auto simp: tuple3_def)

lemma len3_tuple3:
  assumes "len t = 3"
  shows "\<exists>e. t = tuple3 e"
proof (cases t)
  case Empty
  with assms show ?thesis by simp
next
  case (Fields w nodes)
  with assms have "length nodes = 2" by simp
  then obtain a b where "nodes = [a, b]"
    by (metis (no_types, opaque_lifting) One_nat_def Suc_1 length_0_conv length_Suc_conv)
  with Fields have "t = tuple3 (w, a, b)" by (simp add: tuple3_def)
  then show ?thesis by blast
qed

lemma all_len3_map_tuple3:
  assumes "list_all (\<lambda>edge. len edge = 3) ts"
  shows "\<exists>es. ts = map tuple3 es"
  using assms
proof (induction ts)
  case Nil
  then show ?case by simp
next
  case (Cons t ts)
  then obtain es where "ts = map tuple3 es" by auto
  moreover from Cons.prems have "len t = 3" by simp
  then obtain e where "t = tuple3 e" using len3_tuple3 by blast
  ultimately have "t # ts = map tuple3 (e # es)" by simp
  then show ?case by (rule exI)
qed

lemma clustering_run_ok:
  "\<exists>s. clustering_run es k = ok s \<and> cl_inv (verts (set es)) s
      \<and> minspantree s = kbudget (int (card (verts (set es))) - k) (sort es) {}"
proof -
  have "verts (set (sort es)) \<subseteq> verts (set es)" by simp
  from clustering_loop_ok[OF cl_inv_init this, of "int (card (verts (set es))) - k"]
  show ?thesis by (simp add: clustering_run_def length_vertices clustering_init_eq)
qed

lemma clustering_eq:
  "clustering (map tuple3 es) k =
     bindr (clustering_run es k) (\<lambda>s. ok (minspantree s, cc_d s))"
  by (simp add: clustering_def list_all_len_tuple3 unpack_all_map_tuple3)

section \<open>The minimum spanning forest\<close>

lemma mst_spanning_forest:
  "card (kruskal (sort es)) + card (components (verts (kruskal (sort es))) (kruskal (sort es)))
     = card (verts (kruskal (sort es)))
   \<and> spanning_forest (kruskal (sort es)) (set es)
   \<and> (\<forall>T. spanning_forest T (set es) \<longrightarrow> total_weight (kruskal (sort es)) \<le> total_weight T)"
proof (intro conjI allI impI)
  let ?F = "kruskal (sort es)"
  show "card ?F + card (components (verts ?F) ?F) = card (verts ?F)"
    using finite_kruskal forest_kruskal by (rule forest_count) (simp_all add: finite_verts finite_kruskal)
  show "spanning_forest ?F (set es)"
    using spanning_forest_kruskal[of "sort es"] by simp
  fix T assume "spanning_forest T (set es)"
  then have "spanning_forest T (set (sort es))" by simp
  with sorted_sort show "total_weight ?F \<le> total_weight T" by (rule kruskal_minimal)
qed

text \<open>
  C3. For every list of edges, \<^verbatim>\<open>minimum_spanning_tree\<close> returns a set of edges that is
  acyclic: as a graph of its own, its edges and its connected components together number
  its vertices. That set is a spanning forest of the input graph (a set of input edges,
  none of which joins two vertices that the others already connect, connecting exactly the
  pairs of vertices the input connects), and no spanning forest of the input graph has a
  smaller total weight.
\<close>

theorem minimum_spanning_tree_minimal:
  "\<exists>tree. minimum_spanning_tree (map tuple3 es) = ok tree
     \<and> card tree + card (components (verts tree) tree) = card (verts tree)
     \<and> spanning_forest tree (set es)
     \<and> (\<forall>T. spanning_forest T (set es) \<longrightarrow> total_weight tree \<le> total_weight T)"
  using mst_spanning_forest[of es] minimum_spanning_tree_eq[of es] by blast

theorem minimum_spanning_tree_minimal_witness:
  "spanning_forest {(2, ''a'', ''b'')} (set [(1, ''a'', ''b''), (2, ''a'', ''b'')])
   \<and> (\<exists>tree. minimum_spanning_tree (map tuple3 [(1, ''a'', ''b''), (2, ''a'', ''b'')]) = ok tree
        \<and> total_weight tree \<le> total_weight {(2, ''a'', ''b'')})"
proof -
  have ab: "(''a'', ''b'') \<in> connected_in {(2::int, ''a'', ''b'')}"
    by (rule connected_in_edge[of 2]) simp
  have "connected_in (insert (1, ''a'', ''b'') {(2::int, ''a'', ''b'')})
      = connected_in {(2::int, ''a'', ''b'')}"
    using ab by (rule connected_in_insert_absorb)
  then have sf: "spanning_forest {(2, ''a'', ''b'')} (set [(1, ''a'', ''b''), (2, ''a'', ''b'')])"
    by (simp add: spanning_forest_def forest_def)
  with minimum_spanning_tree_minimal[of "[(1, ''a'', ''b''), (2, ''a'', ''b'')]"]
  show ?thesis by blast
qed

section \<open>The check of the input\<close>

text \<open>
  C5. \<^verbatim>\<open>clustering\<close> raises its \<^verbatim>\<open>ValueError\<close> exactly when some element of the input
  does not have three fields. The test is the first statement of the function: the error is
  the whole outcome, whatever the number of clusters asked for, and no dictionary has been
  created when it is raised. When every element has three fields the call returns a value.
\<close>

theorem clustering_invalid_edge_format:
  "(clustering edges nb_clusters = raise ValueError \<longleftrightarrow> \<not> list_all (\<lambda>edge. len edge = 3) edges)
   \<and> (list_all (\<lambda>edge. len edge = 3) edges \<longleftrightarrow> (\<exists>result. clustering edges nb_clusters = ok result))"
proof (cases "list_all (\<lambda>edge. len edge = 3) edges")
  case True
  then obtain es where es: "edges = map tuple3 es" using all_len3_map_tuple3 by blast
  from clustering_run_ok[of es nb_clusters] obtain s where "clustering_run es nb_clusters = ok s"
    by blast
  then have "clustering edges nb_clusters = ok (minspantree s, cc_d s)"
    by (simp add: es clustering_eq)
  with True show ?thesis by simp
next
  case False
  then have "clustering edges nb_clusters = raise ValueError" by (simp add: clustering_def)
  with False show ?thesis by simp
qed

theorem clustering_invalid_edge_format_witness:
  "clustering [Fields 1 [''a'', ''b''], Fields 2 [''a'']] 2 = raise ValueError
   \<and> \<not> list_all (\<lambda>edge. len edge = 3) [Fields 1 [''a'', ''b''], Fields 2 [''a'']]"
  using clustering_invalid_edge_format[of "[Fields 1 [''a'', ''b''], Fields 2 [''a'']]" 2]
  by simp

section \<open>The disjoint-set operations\<close>

lemma find_uf_make_set: "find_uf v (fst (make_set v dicts)) = ok (v, fst (make_set v dicts))"
proof -
  obtain parent rank cc where d: "dicts = (parent, rank, cc)" by (cases dicts)
  have "find_uf v (parent(v \<mapsto> v)) = ok (v, parent(v \<mapsto> v))"
    by (subst find_uf.simps) (simp add: ok_def)
  then show ?thesis by (simp add: d make_set_def)
qed

lemma union_returning_choosen_finds:
  assumes ds: "disjoint_set parent rank" and a: "a \<in> dom parent" and b: "b \<in> dom parent"
  shows "\<exists>res parent' rank'.
           union_returning_choosen a b parent rank = ok (res, parent', rank')
           \<and> (res = None \<longleftrightarrow> same_root parent a b)
           \<and> (\<forall>s t. res = Some (s, t) \<longrightarrow>
                 (\<exists>p1 p2. find_uf a parent' = ok (s, p1) \<and> find_uf b p1 = ok (s, p2)))
           \<and> disjoint_set parent' rank'"
proof -
  from ds a obtain ra where ra: "root_of parent a ra" unfolding disjoint_set_def by blast
  from ds b obtain rb where rb: "root_of parent b rb" unfolding disjoint_set_def by blast
  have dr: "dom rank = dom parent" using ds by (simp add: disjoint_set_def)
  have total: "\<forall>v\<in>dom parent. \<exists>r. root_of parent v r" using ds by (simp add: disjoint_set_def)
  have same: "same_root parent a b \<longleftrightarrow> ra = rb"
    unfolding same_root_def using ra rb by (auto dest: root_of_unique)
  from union_returning_choosen_spec[OF dr ra rb]
  obtain res p' rk' where u: "union_returning_choosen a b parent rank = ok (res, p', rk')"
    and d: "dom p' = dom parent" and drk: "dom rk' = dom rank"
    and rest: "if ra = rb then res = None \<and> root_of p' = root_of parent
        else \<exists>s t. res = Some (s, t) \<and> (s = ra \<and> t = rb \<or> s = rb \<and> t = ra)
               \<and> absorbs parent p' s t"
    by blast
  show ?thesis
  proof (cases "ra = rb")
    case True
    with rest have "res = None" and e: "root_of p' = root_of parent" by simp_all
    moreover have "disjoint_set p' rk'"
      unfolding disjoint_set_def using total d drk dr e by simp
    ultimately show ?thesis using u same True by simp
  next
    case False
    with rest obtain s t where res: "res = Some (s, t)"
      and st: "s = ra \<and> t = rb \<or> s = rb \<and> t = ra" and ab: "absorbs parent p' s t"
      by auto
    have a': "root_of p' a s" using absorbs_root_of[OF ab ra] st by auto
    have b': "root_of p' b s" using absorbs_root_of[OF ab rb] st by auto
    from a' obtain p1 where f1: "find_uf a p' = ok (s, p1)" and e1: "root_of p1 = root_of p'"
      by (rule find_uf_ok)
    from b' have "root_of p1 b s" by (simp add: e1)
    then obtain p2 where f2: "find_uf b p1 = ok (s, p2)" by (rule find_uf_ok)
    have "\<forall>v\<in>dom p'. \<exists>r. root_of p' v r" using ab d total by (rule absorbs_total)
    then have "disjoint_set p' rk'" unfolding disjoint_set_def using d drk dr by simp
    with u res f1 f2 same False show ?thesis by auto
  qed
qed

text \<open>
  C7. In any dictionaries, right after \<^verbatim>\<open>_make_set(v)\<close> the call \<^verbatim>\<open>_find(v)\<close> returns
  \<open>v\<close>. In a disjoint-set state (every registered vertex reaches a root along \<^verbatim>\<open>parent\<close>,
  and \<^verbatim>\<open>rank\<close> has the same keys), \<^verbatim>\<open>_union_returning_choosen(a, b)\<close> on registered
  vertices returns; it returns no pair exactly when \<open>a\<close> and \<open>b\<close> already had the same root;
  and when it returns the pair (surviving root, absorbed root), \<^verbatim>\<open>_find(a)\<close> and then
  \<^verbatim>\<open>_find(b)\<close> both return the surviving root. The state it leaves is again a disjoint-set
  state.
\<close>

theorem disjoint_set_make_set_find_union:
  "find_uf v (fst (make_set v dicts)) = ok (v, fst (make_set v dicts))
   \<and> (disjoint_set parent rank \<and> a \<in> dom parent \<and> b \<in> dom parent \<longrightarrow>
        (\<exists>res parent' rank'.
           union_returning_choosen a b parent rank = ok (res, parent', rank')
           \<and> (res = None \<longleftrightarrow> same_root parent a b)
           \<and> (\<forall>s t. res = Some (s, t) \<longrightarrow>
                 (\<exists>p1 p2. find_uf a parent' = ok (s, p1) \<and> find_uf b p1 = ok (s, p2)))
           \<and> disjoint_set parent' rank'))"
proof (intro conjI impI)
  show "find_uf v (fst (make_set v dicts)) = ok (v, fst (make_set v dicts))"
    by (rule find_uf_make_set)
next
  assume h: "disjoint_set parent rank \<and> a \<in> dom parent \<and> b \<in> dom parent"
  then have "disjoint_set parent rank" "a \<in> dom parent" "b \<in> dom parent" by simp_all
  then show "\<exists>res parent' rank'.
           union_returning_choosen a b parent rank = ok (res, parent', rank')
           \<and> (res = None \<longleftrightarrow> same_root parent a b)
           \<and> (\<forall>s t. res = Some (s, t) \<longrightarrow>
                 (\<exists>p1 p2. find_uf a parent' = ok (s, p1) \<and> find_uf b p1 = ok (s, p2)))
           \<and> disjoint_set parent' rank'"
    by (rule union_returning_choosen_finds)
qed

theorem disjoint_set_make_set_find_union_witness:
  "disjoint_set [1::nat \<mapsto> 1::nat, 2 \<mapsto> 2] [1::nat \<mapsto> 0::nat, 2 \<mapsto> 0]
   \<and> (1::nat) \<in> dom [1::nat \<mapsto> 1::nat, 2 \<mapsto> 2]
   \<and> (2::nat) \<in> dom [1::nat \<mapsto> 1::nat, 2 \<mapsto> 2]
   \<and> (\<exists>res parent' rank'.
        union_returning_choosen (1::nat) 2 [1::nat \<mapsto> 1::nat, 2 \<mapsto> 2] [1::nat \<mapsto> 0::nat, 2 \<mapsto> 0]
          = ok (res, parent', rank')
        \<and> (\<exists>s t p1 p2. res = Some (s, t)
              \<and> find_uf 1 parent' = ok (s, p1) \<and> find_uf 2 p1 = ok (s, p2)))"
proof -
  let ?P = "[1::nat \<mapsto> 1::nat, 2 \<mapsto> 2]"
  let ?R = "[1::nat \<mapsto> 0::nat, 2 \<mapsto> 0]"
  have r1: "root_of ?P 1 1" by (rule root_of.root_self) simp
  have r2: "root_of ?P 2 2" by (rule root_of.root_self) simp
  have ds: "disjoint_set ?P ?R"
    unfolding disjoint_set_def using r1 r2 by auto
  have ns: "\<not> same_root ?P 1 2"
    unfolding same_root_def using r1 r2 by (auto dest: root_of_unique)
  have d: "(1::nat) \<in> dom ?P" "(2::nat) \<in> dom ?P" by simp_all
  have h: "disjoint_set ?P ?R \<and> 1 \<in> dom ?P \<and> 2 \<in> dom ?P" using ds d by simp
  from disjoint_set_make_set_find_union[of 1 "(?P, ?R, Map.empty)" ?P ?R 1 2,
      THEN conjunct2, rule_format, OF h]
  obtain res parent' rank' where
    u: "union_returning_choosen (1::nat) 2 ?P ?R = ok (res, parent', rank')"
    and n: "res = None \<longleftrightarrow> same_root ?P 1 2"
    and f: "\<And>s t. res = Some (s, t) \<Longrightarrow>
                 (\<exists>p1 p2. find_uf 1 parent' = ok (s, p1) \<and> find_uf 2 p1 = ok (s, p2))"
    by blast
  from n ns obtain s t where res: "res = Some (s, t)" by (cases res) auto
  from f[OF res] obtain p1 p2 where "find_uf 1 parent' = ok (s, p1)" "find_uf 2 p1 = ok (s, p2)"
    by blast
  with u res have "\<exists>res parent' rank'.
        union_returning_choosen (1::nat) 2 ?P ?R = ok (res, parent', rank')
        \<and> (\<exists>s t p1 p2. res = Some (s, t)
              \<and> find_uf 1 parent' = ok (s, p1) \<and> find_uf 2 p1 = ok (s, p2))"
    by blast
  with h show ?thesis by simp
qed

section \<open>Counting\<close>

subsection \<open>What the invariant says about the dictionaries\<close>

lemma cl_inv_keys:
  assumes "cl_inv V s"
  shows "dom (cc_d s) = {r. parent_d s r = Some r}"
proof -
  from assms have "members_of (parent_d s) (cc_d s)" by (simp add: cl_inv_def)
  then show ?thesis unfolding members_of_def dom_def by (auto split: if_splits)
qed

lemma cl_inv_partitions:
  assumes "cl_inv V s"
  shows "partitions (cc_d s) V"
proof -
  let ?p = "parent_d s" and ?cc = "cc_d s"
  from assms have m: "\<And>r. ?cc r = (if ?p r = Some r then Some {v. root_of ?p v r} else None)"
    and d: "dom ?p = V" and total: "\<forall>v\<in>V. \<exists>r. root_of ?p v r"
    by (auto simp: cl_inv_def members_of_def tracks_def uf_tracks_def)
  have val: "A = {v. root_of ?p v r} \<and> ?p r = Some r" if "?cc r = Some A" for r A
    using that m[of r] by (auto split: if_splits)
  have cover: "v \<in> V \<longleftrightarrow> (\<exists>r A. ?cc r = Some A \<and> v \<in> A)" for v
  proof
    assume "v \<in> V"
    with total obtain r where r: "root_of ?p v r" by blast
    then have "?p r = Some r" by (rule root_of_root)
    with m[of r] r show "\<exists>r A. ?cc r = Some A \<and> v \<in> A" by auto
  next
    assume "\<exists>r A. ?cc r = Some A \<and> v \<in> A"
    then obtain r A where "?cc r = Some A" "v \<in> A" by blast
    with val have "root_of ?p v r" by blast
    then have "v \<in> dom ?p" by (rule root_of_dom)
    with d show "v \<in> V" by simp
  qed
  have nonempty: "A \<noteq> {}" if "?cc r = Some A" for r A
  proof -
    from val[OF that] have "A = {v. root_of ?p v r}" "root_of ?p r r"
      by (auto intro: root_of.root_self)
    then show ?thesis by blast
  qed
  have disjoint: "A \<inter> B = {}" if "?cc r1 = Some A \<and> ?cc r2 = Some B \<and> r1 \<noteq> r2" for r1 r2 A B
  proof -
    from that val have "A = {v. root_of ?p v r1}" "B = {v. root_of ?p v r2}" "r1 \<noteq> r2"
      by blast+
    then show ?thesis by (auto dest: root_of_unique)
  qed
  show ?thesis
    unfolding partitions_def using cover nonempty disjoint by blast
qed

lemma cl_inv_card:
  assumes "cl_inv V s"
  shows "card (minspantree s) + card (dom (cc_d s)) = card V"
  using assms cl_inv_keys[OF assms] by (simp add: cl_inv_def tracks_def uf_tracks_def)

lemma uf_tracks_unions:
  assumes "uf_tracks V parent rank acc"
  shows "card acc = unions_performed parent"
proof -
  from assms have fin: "finite V" and d: "dom parent = V"
    and cnt: "card acc + card {r. parent r = Some r} = card V"
    by (auto simp: uf_tracks_def)
  have roots: "{r. parent r = Some r} \<subseteq> V" using d by auto
  have "{v \<in> dom parent. parent v \<noteq> Some v} = V - {r. parent r = Some r}" using d by auto
  then have "unions_performed parent = card V - card {r. parent r = Some r}"
    unfolding unions_performed_def using fin roots by (simp add: card_Diff_subset finite_subset)
  with cnt show ?thesis by simp
qed

lemma tracks_unions: "tracks V s \<Longrightarrow> card (minspantree s) = unions_performed (parent_d s)"
  unfolding tracks_def by (rule uf_tracks_unions)

lemma find_uf_performed:
  assumes "root_of parent v r"
  shows "\<exists>parent'. find_uf v parent = ok (r, parent')
           \<and> unions_performed parent' = unions_performed parent"
proof -
  from assms obtain parent' where f: "find_uf v parent = ok (r, parent')"
    and d: "dom parent' = dom parent" and e: "root_of parent' = root_of parent"
    by (rule find_uf_ok)
  have "unions_performed parent' = unions_performed parent"
    unfolding unions_performed_def is_root_iff d e ..
  with f show ?thesis by blast
qed

lemma union_uf_performed:
  assumes ds: "disjoint_set parent rank" and fin: "finite (dom parent)"
    and a: "a \<in> dom parent" and b: "b \<in> dom parent"
  shows "\<exists>parent' rank'. union_uf a b parent rank = ok (parent', rank')
           \<and> unions_performed parent' =
               unions_performed parent + (if same_root parent a b then 0 else 1)"
proof -
  from ds a obtain ra where ra: "root_of parent a ra" unfolding disjoint_set_def by blast
  from ds b obtain rb where rb: "root_of parent b rb" unfolding disjoint_set_def by blast
  have dr: "dom rank = dom parent" using ds by (simp add: disjoint_set_def)
  have same: "same_root parent a b \<longleftrightarrow> ra = rb"
    unfolding same_root_def using ra rb by (auto dest: root_of_unique)
  from union_returning_choosen_spec[OF dr ra rb]
  obtain res p' rk' where u: "union_returning_choosen a b parent rank = ok (res, p', rk')"
    and d: "dom p' = dom parent"
    and rest: "if ra = rb then res = None \<and> root_of p' = root_of parent
        else \<exists>s t. res = Some (s, t) \<and> (s = ra \<and> t = rb \<or> s = rb \<and> t = ra)
               \<and> absorbs parent p' s t"
    by blast
  have run: "union_uf a b parent rank = ok (p', rk')" by (simp add: union_uf_conv u)
  show ?thesis
  proof (cases "ra = rb")
    case True
    with rest have "root_of p' = root_of parent" by simp
    then have "unions_performed p' = unions_performed parent"
      unfolding unions_performed_def is_root_iff d by simp
    with run same True show ?thesis by simp
  next
    case False
    with rest obtain s t where st: "s = ra \<and> t = rb \<or> s = rb \<and> t = ra"
      and ab: "absorbs parent p' s t"
      by auto
    have rs: "root_of parent s s" and rt: "root_of parent t t" and snt: "s \<noteq> t"
      using st ra rb False by (auto dest: root_of_root intro: root_of.root_self)
    have roots: "{r. p' r = Some r} = {r. parent r = Some r} - {t}"
      using ab rs rt snt by (rule absorbs_roots)
    have tp: "parent t = Some t" using rt by (simp add: is_root_iff)
    have "{v \<in> dom p'. p' v \<noteq> Some v} = insert t {v \<in> dom parent. parent v \<noteq> Some v}"
      using roots tp d by auto
    moreover have "t \<notin> {v \<in> dom parent. parent v \<noteq> Some v}" using tp by simp
    moreover have "finite {v \<in> dom parent. parent v \<noteq> Some v}" using fin by simp
    ultimately have "unions_performed p' = unions_performed parent + 1"
      unfolding unions_performed_def by simp
    with run same False show ?thesis by simp
  qed
qed

subsection \<open>Counting the accepted edges\<close>

lemma kruskal_card:
  "card (kruskal (sort es)) + card (components (verts (set es)) (set es)) = card (verts (set es))"
  using spanning_forest_card[OF spanning_forest_kruskal[of "sort es"]] by simp

lemma components_pos:
  assumes "finite V" and "V \<noteq> {}"
  shows "1 \<le> card (components V E)"
proof -
  have "components V E \<noteq> {}" using assms(2) by (simp add: components_def)
  moreover have "finite (components V E)" using assms(1) by (rule finite_components)
  ultimately show ?thesis by (simp add: Suc_leI card_gt_0_iff)
qed

lemma connected_graph_components:
  assumes "connected_graph E"
  shows "components (verts E) E = {verts E}"
proof -
  from assms have ne: "verts E \<noteq> {}"
    and all: "\<And>a b. a \<in> verts E \<Longrightarrow> b \<in> verts E \<Longrightarrow> (a, b) \<in> connected_in E"
    by (auto simp: connected_graph_def)
  have "connected_in E `` {v} = verts E" if "v \<in> verts E" for v
  proof
    show "connected_in E `` {v} \<subseteq> verts E"
    proof
      fix u assume "u \<in> connected_in E `` {v}"
      then have "(v, u) \<in> connected_in E" by simp
      then show "u \<in> verts E" using that connected_in_verts[of v u E] by (cases "u = v") auto
    qed
    show "verts E \<subseteq> connected_in E `` {v}" using all[OF that] by auto
  qed
  then have "components (verts E) E = (\<lambda>v. verts E) ` verts E"
    by (simp add: components_def)
  with ne show ?thesis by auto
qed

lemma kbudget_run_card:
  "card (kbudget nb (sort es) {}) = min (card (kruskal (sort es))) (nat nb)"
  using kbudget_card[of "{}" nb "sort es"] by (simp add: kruskal_def)

lemma kruskal_card_le:
  assumes "verts (set es) \<noteq> {}"
  shows "card (kruskal (sort es)) < card (verts (set es))"
  using kruskal_card[of es] components_pos[OF finite_verts assms, of "set es"]
  by simp

lemma kruskal_card_zero:
  assumes "verts (set es) = {}"
  shows "card (kruskal (sort es)) = 0"
  using kruskal_card[of es] assms by simp

subsection \<open>A larger budget that accepts no more edges changes nothing\<close>

lemma clustering_loop_no_growth:
  assumes "cl_inv V s" and "verts (set xs) \<subseteq> V" and "clustering_loop nb xs s = ok s2"
    and "card (minspantree s2) \<le> card (minspantree s)"
  shows "minspantree s2 = minspantree s \<and> cc_d s2 = cc_d s"
  using assms
proof (induction xs arbitrary: s)
  case Nil
  then show ?case by simp
next
  case (Cons e xs)
  show ?case
  proof (cases "union_performed s > nb")
    case True
    with Cons.prems(3) show ?thesis by simp
  next
    case False
    obtain w a b where e: "e = (w, a, b)" by (cases e)
    have ab: "a \<in> V" "b \<in> V"
      using Cons.prems(2) edge_in_verts[of w a b "set (e # xs)"] by (auto simp: e)
    have sub: "verts (set xs) \<subseteq> V"
      using Cons.prems(2) verts_mono[of "set xs" "set (e # xs)"] by auto
    from clustering_step_ok[OF Cons.prems(1) ab, of w]
    obtain s1 where b1: "clustering_body s e = ok s1" and i1: "cl_inv V s1"
      and m1: "minspantree s1 = kstep (minspantree s) e"
      and c1: "(a, b) \<in> connected_in (minspantree s) \<longrightarrow> cc_d s1 = cc_d s"
      unfolding e by blast
    from Cons.prems(3) False have l2: "clustering_loop nb xs s1 = ok s2" by (simp add: b1)
    from clustering_loop_ok[OF i1 sub, of nb] l2
    have t2: "tracks V s2" and m2: "minspantree s2 = kbudget nb xs (minspantree s1)"
      by (auto simp: cl_inv_def)
    have "minspantree s1 \<subseteq> minspantree s2" unfolding m2 using kbudget_between by blast
    then have le12: "card (minspantree s1) \<le> card (minspantree s2)"
      using tracks_finite[OF t2] by (rule card_mono[rotated])
    have fin: "finite (minspantree s)" using Cons.prems(1) by (auto simp: cl_inv_def intro: tracks_finite)
    have k: "card (minspantree s1) =
        card (minspantree s) + (if (a, b) \<in> connected_in (minspantree s) then 0 else 1)"
      unfolding m1 using kstep_card[OF fin, of e] by (simp add: e)
    from k le12 Cons.prems(4) have conn: "(a, b) \<in> connected_in (minspantree s)"
      by (auto split: if_splits)
    then have same: "minspantree s1 = minspantree s" "cc_d s1 = cc_d s"
      using m1 c1 by (simp_all add: kstep_def e)
    from Cons.prems(4) same have "card (minspantree s2) \<le> card (minspantree s1)" by simp
    from Cons.IH[OF i1 sub l2 this] same show ?thesis by simp
  qed
qed

lemma clustering_loop_budget_mono:
  assumes "nb \<le> nb'" and "cl_inv V s" and "verts (set xs) \<subseteq> V"
    and "clustering_loop nb xs s = ok s1" and "clustering_loop nb' xs s = ok s2"
    and "card (minspantree s2) \<le> card (minspantree s1)"
  shows "minspantree s2 = minspantree s1 \<and> cc_d s2 = cc_d s1"
  using assms
proof (induction xs arbitrary: s)
  case Nil
  then show ?case by simp
next
  case (Cons e xs)
  show ?case
  proof (cases "union_performed s > nb")
    case True
    with Cons.prems(4) have "s1 = s" by simp
    with Cons.prems clustering_loop_no_growth[of V s "e # xs" nb' s2] show ?thesis by simp
  next
    case False
    with Cons.prems(1) have F': "\<not> union_performed s > nb'" by simp
    obtain w a b where e: "e = (w, a, b)" by (cases e)
    have ab: "a \<in> V" "b \<in> V"
      using Cons.prems(3) edge_in_verts[of w a b "set (e # xs)"] by (auto simp: e)
    have sub: "verts (set xs) \<subseteq> V"
      using Cons.prems(3) verts_mono[of "set xs" "set (e # xs)"] by auto
    from clustering_step_ok[OF Cons.prems(2) ab, of w]
    obtain s' where b1: "clustering_body s e = ok s'" and i1: "cl_inv V s'"
      unfolding e by blast
    from Cons.prems(4) False have l1: "clustering_loop nb xs s' = ok s1" by (simp add: b1)
    from Cons.prems(5) F' have l2: "clustering_loop nb' xs s' = ok s2" by (simp add: b1)
    from Cons.IH[OF Cons.prems(1) i1 sub l1 l2 Cons.prems(6)] show ?thesis .
  qed
qed

lemma clustering_run_nonpositive:
  assumes "k \<le> 0"
  shows "\<exists>s1 s2. clustering_run es 1 = ok s1 \<and> clustering_run es k = ok s2
           \<and> minspantree s2 = minspantree s1 \<and> cc_d s2 = cc_d s1
           \<and> minspantree s1 = kruskal (sort es) \<and> cl_inv (verts (set es)) s1"
proof -
  let ?V = "verts (set es)"
  let ?n = "int (card ?V)"
  from clustering_run_ok[of es 1] obtain s1 where r1: "clustering_run es 1 = ok s1"
    and i1: "cl_inv ?V s1" and m1: "minspantree s1 = kbudget (?n - 1) (sort es) {}"
    by blast
  from clustering_run_ok[of es k] obtain s2 where r2: "clustering_run es k = ok s2"
    and i2: "cl_inv ?V s2" and m2: "minspantree s2 = kbudget (?n - k) (sort es) {}"
    by blast
  have c1: "card (minspantree s1) = card (kruskal (sort es))"
  proof (cases "?V = {}")
    case True
    then show ?thesis unfolding m1 kbudget_run_card using kruskal_card_zero[of es] by simp
  next
    case False
    then show ?thesis unfolding m1 kbudget_run_card using kruskal_card_le[of es] by simp
  qed
  have c2: "card (minspantree s2) \<le> card (kruskal (sort es))"
    unfolding m2 kbudget_run_card by simp
  have sub: "minspantree s1 \<subseteq> kruskal (sort es)"
    unfolding m1 kruskal_def using kbudget_between by blast
  have eq1: "minspantree s1 = kruskal (sort es)"
    using sub c1 finite_kruskal[of "sort es"] by (simp add: card_subset_eq)
  have l1: "clustering_loop (?n - 1) (sort es) (clustering_init es) = ok s1"
    using r1 by (simp add: clustering_run_def length_vertices)
  have l2: "clustering_loop (?n - k) (sort es) (clustering_init es) = ok s2"
    using r2 by (simp add: clustering_run_def length_vertices)
  have "minspantree s2 = minspantree s1 \<and> cc_d s2 = cc_d s1"
  proof (rule clustering_loop_budget_mono[OF _ cl_inv_init _ l1 l2])
    show "?n - 1 \<le> ?n - k" using assms by simp
    show "verts (set (sort es)) \<subseteq> ?V" by simp
    show "card (minspantree s2) \<le> card (minspantree s1)" using c1 c2 by simp
  qed
  with r1 r2 eq1 i1 show ?thesis by blast
qed

lemma single_cluster:
  assumes inv: "cl_inv V s" and one: "card (dom (cc_d s)) = 1"
  shows "\<exists>r. dom (cc_d s) = {r} \<and> cc_d s r = Some V"
proof -
  from one obtain r where r: "dom (cc_d s) = {r}" by (auto simp: card_1_singleton_iff)
  then obtain A where A: "cc_d s r = Some A" by auto
  have p: "partitions (cc_d s) V" using inv by (rule cl_inv_partitions)
  have "A = V"
  proof
    show "A \<subseteq> V" using p A unfolding partitions_def by blast
    show "V \<subseteq> A"
    proof
      fix v assume "v \<in> V"
      with p obtain r' A' where "cc_d s r' = Some A'" "v \<in> A'" unfolding partitions_def by blast
      moreover from this r have "r' = r" by auto
      ultimately show "v \<in> A" using A by simp
    qed
  qed
  with r A show ?thesis by blast
qed

section \<open>Clusters, accepted edges and members\<close>

lemma clustering_loop_break:
  assumes "union_performed s > nb"
  shows "clustering_loop nb xs s = ok s"
  using assms by (cases xs) simp_all

lemma bindr_ok_right: "bindr m ok = m"
  by (auto simp: bindr_def ok_def split: option.splits sum.splits)

subsection \<open>Two small graphs\<close>

lemma single_edge_run:
  "mst_run [(1, ''a'', ''b'')] =
     ok \<lparr>minspantree = {(1, ''a'', ''b'')},
         parent_d = [''b'' \<mapsto> ''b'', ''a'' \<mapsto> ''b''],
         rank_d = [''a'' \<mapsto> 0, ''b'' \<mapsto> Suc 0],
         cc_d = [''a'' \<mapsto> {''a''}, ''b'' \<mapsto> {''b''}]\<rparr>"
  unfolding mst_run_def
  by (simp add: vertices_def mst_init_def init_dicts_def make_set_def mst_body_def
        bindr_def ok_def raise_def union_uf_def find_uf.simps)

lemma single_edge_unions: "unions_performed [''b'' \<mapsto> ''b'', ''a'' \<mapsto> ''b''] = 1"
proof -
  have "{v \<in> dom [''b'' \<mapsto> ''b'', ''a'' \<mapsto> ''b'']. [''b'' \<mapsto> ''b'', ''a'' \<mapsto> ''b''] v \<noteq> Some v}
      = {''a''}"
    by auto
  then show ?thesis by (simp add: unions_performed_def)
qed

lemma single_edge_mst:
  "minimum_spanning_tree (map tuple3 [(1, ''a'', ''b'')]) = ok {(1, ''a'', ''b'')}"
  unfolding minimum_spanning_tree_def unpack_all_map_tuple3 by (simp add: single_edge_run)

lemma two_edges_mst:
  "minimum_spanning_tree (map tuple3 [(1, ''a'', ''b''), (2, ''c'', ''d'')]) =
     ok {(2, ''c'', ''d''), (1, ''a'', ''b'')}"
  unfolding minimum_spanning_tree_def unpack_all_map_tuple3 mst_run_def
  by (simp add: vertices_def mst_init_def init_dicts_def make_set_def mst_body_def
        bindr_def ok_def raise_def union_uf_def find_uf.simps)

lemma single_edge_components:
  "card (verts (set [(1::int, ''a'', ''b'')])) = 2
   \<and> card (components (verts (set [(1::int, ''a'', ''b'')])) (set [(1, ''a'', ''b'')])) = 1"
proof -
  have k: "kruskal (sort [(1::int, ''a'', ''b'')]) = {(1, ''a'', ''b'')}"
    using single_edge_mst minimum_spanning_tree_eq[of "[(1, ''a'', ''b'')]"] by simp
  have v: "card (verts (set [(1::int, ''a'', ''b'')])) = 2" by (simp add: verts_def)
  with kruskal_card[of "[(1, ''a'', ''b'')]"] show ?thesis unfolding k by simp
qed

lemma two_edges_components:
  "card (components (verts (set [(1::int, ''a'', ''b''), (2, ''c'', ''d'')]))
      (set [(1, ''a'', ''b''), (2, ''c'', ''d'')])) = 2"
proof -
  have k: "kruskal (sort [(1::int, ''a'', ''b''), (2, ''c'', ''d'')])
      = {(2, ''c'', ''d''), (1, ''a'', ''b'')}"
    using two_edges_mst minimum_spanning_tree_eq[of "[(1, ''a'', ''b''), (2, ''c'', ''d'')]"]
    by simp
  have "verts (set [(1::int, ''a'', ''b''), (2, ''c'', ''d'')]) = {''a'', ''b'', ''c'', ''d''}"
    by (auto simp: verts_def)
  then have v: "card (verts (set [(1::int, ''a'', ''b''), (2, ''c'', ''d'')])) = 4" by simp
  have c: "card {(2::int, ''c'', ''d''), (1, ''a'', ''b'')} = 2" by simp
  from kruskal_card[of "[(1, ''a'', ''b''), (2, ''c'', ''d'')]"] show ?thesis
    unfolding k v c by simp
qed

subsection \<open>The number of clusters\<close>

lemma cluster_count_arith:
  fixes k :: int and n c a f d :: nat
  assumes "a = min f (nat (int n - k))" and "f + c = n" and "a + d = n"
  shows "int d = max (min k (int n)) (int c)"
  using assms by (auto simp: min_def max_def split: if_splits)

lemma cluster_count_aux:
  "\<exists>accepted cc. clustering (map tuple3 es) k = ok (accepted, cc)
     \<and> int (card (dom cc)) =
         max (min k (int (card (verts (set es)))))
             (int (card (components (verts (set es)) (set es))))"
proof -
  let ?V = "verts (set es)"
  from clustering_run_ok[of es k] obtain s where r: "clustering_run es k = ok s"
    and inv: "cl_inv ?V s" and m: "minspantree s = kbudget (int (card ?V) - k) (sort es) {}"
    by blast
  have a: "card (minspantree s) = min (card (kruskal (sort es))) (nat (int (card ?V) - k))"
    unfolding m by (rule kbudget_run_card)
  have "int (card (dom (cc_d s))) =
      max (min k (int (card ?V))) (int (card (components ?V (set es))))"
    using a kruskal_card[of es] cl_inv_card[OF inv] by (rule cluster_count_arith)
  moreover have "clustering (map tuple3 es) k = ok (minspantree s, cc_d s)"
    by (simp add: clustering_eq r)
  ultimately show ?thesis by blast
qed

lemma clustering_all_singletons:
  assumes "k = int (card (verts (set es)))"
  shows "clustering (map tuple3 es) k =
     ok ({}, \<lambda>v. if v \<in> verts (set es) then Some {v} else None)"
proof -
  have "clustering_run es k = ok (clustering_init es)"
    unfolding clustering_run_def Let_def
    by (rule clustering_loop_break) (simp add: assms length_vertices clustering_init_eq)
  then show ?thesis by (simp add: clustering_eq clustering_init_eq)
qed

text \<open>
  C2. For every list of edges and every number of clusters \<open>k \<ge> 1\<close>, \<^verbatim>\<open>clustering\<close> returns
  a dictionary with \<open>max (min k n) c\<close> keys, where \<open>n\<close> is the number of vertices and \<open>c\<close> the
  number of connected components of the input graph: \<open>min k n\<close> keys when the graph has
  enough edges to be merged that far (\<open>c \<le> k\<close>), and otherwise the \<open>c\<close> keys that its
  connectivity allows. With \<open>k = n\<close> no edge is accepted and every vertex is the only member of
  its own cluster.
\<close>

theorem clustering_cluster_count:
  assumes "1 \<le> k"
  shows "\<exists>accepted cc. clustering (map tuple3 es) k = ok (accepted, cc)
     \<and> int (card (dom cc)) =
         max (min k (int (card (verts (set es)))))
             (int (card (components (verts (set es)) (set es))))
     \<and> (int (card (components (verts (set es)) (set es))) \<le> k \<longrightarrow>
          int (card (dom cc)) = min k (int (card (verts (set es)))))
     \<and> (k < int (card (components (verts (set es)) (set es))) \<longrightarrow>
          card (dom cc) = card (components (verts (set es)) (set es)))
     \<and> (k = int (card (verts (set es))) \<longrightarrow>
          accepted = {} \<and> cc = (\<lambda>v. if v \<in> verts (set es) then Some {v} else None))"
proof -
  let ?n = "card (verts (set es))" and ?c = "card (components (verts (set es)) (set es))"
  from cluster_count_aux[of es k] obtain accepted cc
    where r: "clustering (map tuple3 es) k = ok (accepted, cc)"
      and cnt: "int (card (dom cc)) = max (min k (int ?n)) (int ?c)"
    by blast
  have cn: "?c \<le> ?n" using kruskal_card[of es] by simp
  have 1: "int ?c \<le> k \<longrightarrow> int (card (dom cc)) = min k (int ?n)"
    using cnt cn by auto
  have 2: "k < int ?c \<longrightarrow> card (dom cc) = ?c"
    using cnt cn by auto
  have 3: "k = int ?n \<longrightarrow> accepted = {} \<and> cc = (\<lambda>v. if v \<in> verts (set es) then Some {v} else None)"
    using r clustering_all_singletons[of k es] by auto
  from r cnt 1 2 3 show ?thesis by blast
qed

theorem clustering_cluster_count_witness:
  "(1::int) \<le> 2
   \<and> int (card (components (verts (set [(1, ''a'', ''b'')])) (set [(1, ''a'', ''b'')]))) \<le> 2
   \<and> (2::int) = int (card (verts (set [(1, ''a'', ''b'')])))
   \<and> (\<exists>accepted cc. clustering (map tuple3 [(1, ''a'', ''b'')]) 2 = ok (accepted, cc)
        \<and> card (dom cc) = 2
        \<and> accepted = {} \<and> cc = (\<lambda>v. if v \<in> verts {(1, ''a'', ''b'')} then Some {v} else None))
   \<and> (1::int) \<le> 1
   \<and> 1 < int (card (components (verts (set [(1, ''a'', ''b''), (2, ''c'', ''d'')]))
                     (set [(1, ''a'', ''b''), (2, ''c'', ''d'')])))
   \<and> (\<exists>accepted cc. clustering (map tuple3 [(1, ''a'', ''b''), (2, ''c'', ''d'')]) 1
                          = ok (accepted, cc)
        \<and> card (dom cc) = 2)"
proof -
  have k: "(1::int) \<le> 2" by simp
  have n: "(2::int) = int (card (verts (set [(1::int, ''a'', ''b'')])))"
    using single_edge_components by simp
  have c: "int (card (components (verts (set [(1::int, ''a'', ''b'')])) (set [(1, ''a'', ''b'')]))) \<le> 2"
    using single_edge_components by simp
  from clustering_cluster_count[OF k, of "[(1, ''a'', ''b'')]"] n c
  have 1: "\<exists>accepted cc. clustering (map tuple3 [(1, ''a'', ''b'')]) 2 = ok (accepted, cc)
        \<and> card (dom cc) = 2
        \<and> accepted = {} \<and> cc = (\<lambda>v. if v \<in> verts {(1, ''a'', ''b'')} then Some {v} else None)"
    by auto
  have k': "(1::int) \<le> 1" by simp
  have c': "1 < int (card (components (verts (set [(1::int, ''a'', ''b''), (2, ''c'', ''d'')]))
                     (set [(1, ''a'', ''b''), (2, ''c'', ''d'')])))"
    unfolding two_edges_components by simp
  from clustering_cluster_count[OF k', of "[(1, ''a'', ''b''), (2, ''c'', ''d'')]"] c'
  have 2: "\<exists>accepted cc. clustering (map tuple3 [(1, ''a'', ''b''), (2, ''c'', ''d'')]) 1
                          = ok (accepted, cc)
        \<and> card (dom cc) = 2"
    unfolding two_edges_components by auto
  from k n c 1 k' c' 2 show ?thesis by blast
qed

lemma forest_kbudget: "forest (kbudget nb xs {})"
proof -
  have "kbudget nb xs {} \<subseteq> kruskal xs" unfolding kruskal_def using kbudget_between by blast
  with forest_kruskal show ?thesis by (rule forest_subset)
qed

text \<open>
  C4, as the code has it. The accepted edges are a set (an edge is in it once), the set has
  no cycle, and it has exactly as many edges as unions were performed during the run. In
  \<^verbatim>\<open>clustering\<close> the counter \<^verbatim>\<open>union_performed\<close> starts at 1, so that its value is one more
  than the number of accepted edges.
\<close>

theorem spanning_forest_result_edges:
  "(\<exists>s. mst_run es = ok s \<and> forest (minspantree s)
       \<and> card (minspantree s) = unions_performed (parent_d s))
   \<and> (\<exists>s. clustering_run es k = ok s \<and> forest (minspantree s)
       \<and> card (minspantree s) = unions_performed (parent_d s)
       \<and> union_performed s = int (card (minspantree s)) + 1)"
proof
  from mst_run_ok[of es] obtain s where r: "mst_run es = ok s"
    and t: "tracks (verts (set es)) s" and m: "minspantree s = kruskal (sort es)"
    by blast
  have "forest (minspantree s)" unfolding m by (rule forest_kruskal)
  with r tracks_unions[OF t]
  show "\<exists>s. mst_run es = ok s \<and> forest (minspantree s)
       \<and> card (minspantree s) = unions_performed (parent_d s)"
    by blast
next
  from clustering_run_ok[of es k] obtain s where r: "clustering_run es k = ok s"
    and inv: "cl_inv (verts (set es)) s"
    and m: "minspantree s = kbudget (int (card (verts (set es))) - k) (sort es) {}"
    by blast
  have f: "forest (minspantree s)" unfolding m by (rule forest_kbudget)
  from inv have t: "tracks (verts (set es)) s"
    and u: "union_performed s = int (card (minspantree s)) + 1"
    by (simp_all add: cl_inv_def)
  from r f tracks_unions[OF t] u
  show "\<exists>s. clustering_run es k = ok s \<and> forest (minspantree s)
       \<and> card (minspantree s) = unions_performed (parent_d s)
       \<and> union_performed s = int (card (minspantree s)) + 1"
    by blast
qed

theorem spanning_forest_result_edges_witness:
  "\<exists>s. mst_run [(1, ''a'', ''b'')] = ok s \<and> forest (minspantree s)
       \<and> card (minspantree s) = unions_performed (parent_d s)"
  using spanning_forest_result_edges[of "[(1, ''a'', ''b'')]" 1] by (rule conjunct1)

text \<open>
  C4, as the specification states it, fails on the graph of the single edge (1, a, b): the
  run ends with one accepted edge and with \<^verbatim>\<open>parent\<close> = \<open>{a: b, b: b}\<close>, one union performed
  (lemmas \<open>single_edge_run\<close> and \<open>single_edge_unions\<close>), not with one edge fewer than the
  unions.
\<close>

theorem one_edge_fewer_counterexample:
  "map_option (map_sum id one_edge_fewer) (mst_run [(1, ''a'', ''b'')]) = Some (Inr False)"
  by (simp add: single_edge_run ok_def one_edge_fewer_def single_edge_unions)

text \<open>
  C6. In \<^verbatim>\<open>clustering\<close>, after the initialisation (\<open>i = 0\<close>) and after each of the edges the
  loop has gone through (the state after \<open>i\<close> edges is the state in which the loop over the
  first \<open>i\<close> sorted edges ends), the keys of \<^verbatim>\<open>cc\<close> are exactly the vertices that are their
  own parent, and \<^verbatim>\<open>cc\<close> partitions the vertices of the input: its member sets cover them,
  and no vertex is in the member sets of two keys. So does the dictionary that
  \<^verbatim>\<open>clustering\<close> returns.
\<close>

theorem clustering_members_partition:
  "(\<forall>i. \<exists>s. clustering_loop (int (length (vertices es)) - k) (take i (sort es))
               (clustering_init es) = ok s
          \<and> dom (cc_d s) = {r. parent_d s r = Some r}
          \<and> partitions (cc_d s) (verts (set es)))
   \<and> (\<exists>accepted cc. clustering (map tuple3 es) k = ok (accepted, cc)
          \<and> partitions cc (verts (set es)))"
proof
  show "\<forall>i. \<exists>s. clustering_loop (int (length (vertices es)) - k) (take i (sort es))
               (clustering_init es) = ok s
          \<and> dom (cc_d s) = {r. parent_d s r = Some r}
          \<and> partitions (cc_d s) (verts (set es))"
  proof
    fix i
    have "set (take i (sort es)) \<subseteq> set es" using set_take_subset[of i "sort es"] by simp
    then have "verts (set (take i (sort es))) \<subseteq> verts (set es)" by (rule verts_mono)
    from clustering_loop_ok[OF cl_inv_init this, of "int (length (vertices es)) - k"]
    obtain s where "clustering_loop (int (length (vertices es)) - k) (take i (sort es))
               (clustering_init es) = ok s" and "cl_inv (verts (set es)) s"
      by blast
    with cl_inv_keys cl_inv_partitions
    show "\<exists>s. clustering_loop (int (length (vertices es)) - k) (take i (sort es))
               (clustering_init es) = ok s
          \<and> dom (cc_d s) = {r. parent_d s r = Some r}
          \<and> partitions (cc_d s) (verts (set es))"
      by blast
  qed
next
  from clustering_run_ok[of es k] obtain s where r: "clustering_run es k = ok s"
    and inv: "cl_inv (verts (set es)) s"
    by blast
  have "clustering (map tuple3 es) k = ok (minspantree s, cc_d s)"
    by (simp add: clustering_eq r)
  with cl_inv_partitions[OF inv]
  show "\<exists>accepted cc. clustering (map tuple3 es) k = ok (accepted, cc)
          \<and> partitions cc (verts (set es))"
    by blast
qed

theorem clustering_members_partition_witness:
  "\<exists>accepted cc. clustering (map tuple3 [(1, ''a'', ''b'')]) 1 = ok (accepted, cc)
          \<and> partitions cc (verts (set [(1, ''a'', ''b'')]))"
  using clustering_members_partition[of "[(1, ''a'', ''b'')]" 1] by (rule conjunct2)

section \<open>One cluster\<close>

lemma connected_graph_one_component:
  assumes "connected_graph (set es)"
  shows "card (components (verts (set es)) (set es)) = 1"
  using connected_graph_components[OF assms] by simp

lemma clustering_one_connected:
  assumes "connected_graph (set es)"
  shows "\<exists>cc r. clustering (map tuple3 es) 1 = ok (kruskal (sort es), cc)
           \<and> dom cc = {r} \<and> cc r = Some (verts (set es))"
proof -
  let ?V = "verts (set es)"
  have z: "(0::int) \<le> 0" by simp
  from clustering_run_nonpositive[OF z, of es] obtain s where r: "clustering_run es 1 = ok s"
    and m: "minspantree s = kruskal (sort es)" and inv: "cl_inv ?V s"
    by blast
  have "card (dom (cc_d s)) = 1"
    using cl_inv_card[OF inv] kruskal_card[of es] connected_graph_one_component[OF assms]
    by (simp add: m)
  with inv obtain r' where "dom (cc_d s) = {r'}" "cc_d s r' = Some ?V"
    using single_cluster by blast
  moreover have "clustering (map tuple3 es) 1 = ok (kruskal (sort es), cc_d s)"
    by (simp add: clustering_eq r m)
  ultimately show ?thesis by blast
qed

text \<open>
  C8. On a connected graph, \<^verbatim>\<open>clustering\<close> with one cluster accepts exactly the edges that
  \<^verbatim>\<open>minimum_spanning_tree\<close> returns, hence edges of the same total weight, and its dictionary
  has a single key, whose members are all the vertices.
\<close>

theorem clustering_one_cluster_is_spanning_tree:
  assumes "connected_graph (set es)"
  shows "\<exists>tree accepted cc r.
           minimum_spanning_tree (map tuple3 es) = ok tree
           \<and> clustering (map tuple3 es) 1 = ok (accepted, cc)
           \<and> total_weight accepted = total_weight tree \<and> accepted = tree
           \<and> dom cc = {r} \<and> cc r = Some (verts (set es))"
  using clustering_one_connected[OF assms] minimum_spanning_tree_eq[of es] by blast

lemma connected_graph_single_edge:
  assumes "a \<noteq> b"
  shows "connected_graph {(w, a, b)}"
proof -
  have ab: "(a, b) \<in> connected_in {(w, a, b)}" by (rule connected_in_edge[of w]) simp
  then have ba: "(b, a) \<in> connected_in {(w, a, b)}" by (rule connected_in_sym)
  have v: "verts {(w, a, b)} = {a, b}" by (auto simp: verts_def)
  show ?thesis unfolding connected_graph_def v using ab ba by auto
qed

theorem clustering_one_cluster_is_spanning_tree_witness:
  "connected_graph (set [(1, ''a'', ''b'')])
   \<and> (\<exists>tree accepted cc r.
           minimum_spanning_tree (map tuple3 [(1, ''a'', ''b'')]) = ok tree
           \<and> clustering (map tuple3 [(1, ''a'', ''b'')]) 1 = ok (accepted, cc)
           \<and> total_weight accepted = total_weight tree
           \<and> dom cc = {r} \<and> cc r = Some (verts (set [(1, ''a'', ''b'')])))"
proof -
  have c: "connected_graph (set [(1::int, ''a'', ''b'')])"
    using connected_graph_single_edge[of "''a''" "''b''" 1] by simp
  from clustering_one_cluster_is_spanning_tree[OF c] c show ?thesis by blast
qed

lemma clustering_accepts:
  "\<exists>accepted cc. clustering (map tuple3 es) k = ok (accepted, cc)
     \<and> accepted \<subseteq> set es \<and> forest accepted"
proof -
  from clustering_run_ok[of es k] obtain s where r: "clustering_run es k = ok s"
    and m: "minspantree s = kbudget (int (card (verts (set es))) - k) (sort es) {}"
    by blast
  have "minspantree s \<subseteq> kruskal (sort es)"
    unfolding m kruskal_def using kbudget_between by blast
  with kruskal_subset[of "sort es"] have "minspantree s \<subseteq> set es" by auto
  moreover have "forest (minspantree s)" unfolding m by (rule forest_kbudget)
  moreover have "clustering (map tuple3 es) k = ok (minspantree s, cc_d s)"
    by (simp add: clustering_eq r)
  ultimately show ?thesis by blast
qed

lemma clustering_loop_one_more:
  assumes i: "i < length xs" and sub: "verts (set xs) \<subseteq> V" and inv: "cl_inv V s0"
  shows "\<exists>s s'. clustering_loop nb (take i xs) s0 = ok s
           \<and> clustering_loop nb (take (Suc i) xs) s0 = ok s'
           \<and> (minspantree s' = minspantree s
               \<or> (\<exists>w a b. xs ! i = (w, a, b)
                     \<and> minspantree s' = insert (w, a, b) (minspantree s)
                     \<and> \<not> same_root (parent_d s) a b
                     \<and> (a, b) \<notin> connected_in (minspantree s)))"
proof -
  obtain w a b where e: "xs ! i = (w, a, b)" by (cases "xs ! i")
  have mem: "(w, a, b) \<in> set xs" using i e by (metis nth_mem)
  have ab: "a \<in> V" "b \<in> V" using sub edge_in_verts[OF mem] by auto
  have "set (take i xs) \<subseteq> set xs" by (rule set_take_subset)
  then have "verts (set (take i xs)) \<subseteq> V" using sub verts_mono by blast
  from clustering_loop_ok[OF inv this, of nb]
  obtain s where l: "clustering_loop nb (take i xs) s0 = ok s" and si: "cl_inv V s" by blast
  have split: "clustering_loop nb (take (Suc i) xs) s0 = clustering_loop nb [(w, a, b)] s"
    using i by (simp add: take_Suc_conv_app_nth clustering_loop_append l e)
  show ?thesis
  proof (cases "union_performed s > nb")
    case True
    with split have "clustering_loop nb (take (Suc i) xs) s0 = ok s" by simp
    with l show ?thesis by blast
  next
    case False
    from clustering_step_ok[OF si ab, of w]
    obtain s' where b: "clustering_body s (w, a, b) = ok s'"
      and k: "minspantree s' = kstep (minspantree s) (w, a, b)"
      by blast
    from False split b have l': "clustering_loop nb (take (Suc i) xs) s0 = ok s'" by simp
    have t: "uf_tracks V (parent_d s) (rank_d s) (minspantree s)"
      using si by (simp add: cl_inv_def tracks_def)
    then have sr: "same_root (parent_d s) a b \<longleftrightarrow> (a, b) \<in> connected_in (minspantree s)"
      using ab unfolding uf_tracks_def by blast
    show ?thesis
    proof (cases "(a, b) \<in> connected_in (minspantree s)")
      case True
      with k have "minspantree s' = minspantree s" by (simp add: kstep_def)
      with l l' show ?thesis by blast
    next
      case F: False
      with k have "minspantree s' = insert (w, a, b) (minspantree s)" by (simp add: kstep_def)
      with l l' e F sr show ?thesis by blast
    qed
  qed
qed

text \<open>
  C9. Every edge that \<^verbatim>\<open>clustering\<close> accepts is one of the input edges, unchanged, and the
  accepted edges have no cycle. Going from the state after \<open>i\<close> sorted edges to the state
  after \<open>i + 1\<close>, the accepted set either stays as it is or gains the edge just examined,
  and it gains it only when the two endpoints had different roots in \<^verbatim>\<open>parent\<close>, which is
  when the edges accepted so far did not connect them.
\<close>

theorem clustering_accepts_input_edges_between_components:
  "(\<exists>accepted cc. clustering (map tuple3 es) k = ok (accepted, cc)
      \<and> accepted \<subseteq> set es \<and> forest accepted)
   \<and> (\<forall>i<length es.
        \<exists>s s'. clustering_loop (int (length (vertices es)) - k) (take i (sort es))
                 (clustering_init es) = ok s
             \<and> clustering_loop (int (length (vertices es)) - k) (take (Suc i) (sort es))
                 (clustering_init es) = ok s'
             \<and> (minspantree s' = minspantree s
                 \<or> (\<exists>w a b. sort es ! i = (w, a, b)
                       \<and> minspantree s' = insert (w, a, b) (minspantree s)
                       \<and> \<not> same_root (parent_d s) a b
                       \<and> (a, b) \<notin> connected_in (minspantree s))))"
proof (intro conjI allI impI)
  show "\<exists>accepted cc. clustering (map tuple3 es) k = ok (accepted, cc)
      \<and> accepted \<subseteq> set es \<and> forest accepted"
    by (rule clustering_accepts)
next
  fix i assume "i < length es"
  then have i: "i < length (sort es)" by simp
  have sub: "verts (set (sort es)) \<subseteq> verts (set es)" by simp
  show "\<exists>s s'. clustering_loop (int (length (vertices es)) - k) (take i (sort es))
                 (clustering_init es) = ok s
             \<and> clustering_loop (int (length (vertices es)) - k) (take (Suc i) (sort es))
                 (clustering_init es) = ok s'
             \<and> (minspantree s' = minspantree s
                 \<or> (\<exists>w a b. sort es ! i = (w, a, b)
                       \<and> minspantree s' = insert (w, a, b) (minspantree s)
                       \<and> \<not> same_root (parent_d s) a b
                       \<and> (a, b) \<notin> connected_in (minspantree s)))"
    using i sub cl_inv_init by (rule clustering_loop_one_more)
qed

theorem clustering_accepts_input_edges_between_components_witness:
  "(0::nat) < length [(1::int, ''a'', ''b'')]
   \<and> (\<exists>s s'. clustering_loop (int (length (vertices [(1, ''a'', ''b'')])) - 1)
                 (take 0 (sort [(1, ''a'', ''b'')])) (clustering_init [(1, ''a'', ''b'')]) = ok s
             \<and> clustering_loop (int (length (vertices [(1, ''a'', ''b'')])) - 1)
                 (take (Suc 0) (sort [(1, ''a'', ''b'')])) (clustering_init [(1, ''a'', ''b'')])
                 = ok s')"
proof -
  have l: "(0::nat) < length [(1::int, ''a'', ''b'')]" by simp
  from clustering_accepts_input_edges_between_components[of "[(1, ''a'', ''b'')]" 1,
      THEN conjunct2, rule_format, OF l]
  have "\<exists>s s'. clustering_loop (int (length (vertices [(1, ''a'', ''b'')])) - 1)
                 (take 0 (sort [(1, ''a'', ''b'')])) (clustering_init [(1, ''a'', ''b'')]) = ok s
             \<and> clustering_loop (int (length (vertices [(1, ''a'', ''b'')])) - 1)
                 (take (Suc 0) (sort [(1, ''a'', ''b'')])) (clustering_init [(1, ''a'', ''b'')])
                 = ok s'"
    by blast
  with l show ?thesis by blast
qed

lemma clustering_nonpositive_eq:
  assumes "k \<le> 0"
  shows "clustering (map tuple3 es) k = clustering (map tuple3 es) 1"
proof -
  from clustering_run_nonpositive[OF assms, of es] obtain s1 s2
    where "clustering_run es 1 = ok s1" "clustering_run es k = ok s2"
      "minspantree s2 = minspantree s1" "cc_d s2 = cc_d s1"
    by blast
  then show ?thesis by (simp add: clustering_eq)
qed

text \<open>
  C10. \<^verbatim>\<open>clustering\<close> does not look at the sign of the number of clusters: with a number
  \<open>k \<le> 0\<close> it returns a value, the same value as with one cluster. On a connected graph that
  is the set of edges \<^verbatim>\<open>minimum_spanning_tree\<close> returns, with a dictionary of a single key
  whose members are all the vertices.
\<close>

theorem clustering_nonpositive_cluster_count:
  assumes "k \<le> 0"
  shows "(\<exists>result. clustering (map tuple3 es) k = ok result)
     \<and> clustering (map tuple3 es) k = clustering (map tuple3 es) 1
     \<and> (connected_graph (set es) \<longrightarrow>
          (\<exists>tree cc r. minimum_spanning_tree (map tuple3 es) = ok tree
             \<and> clustering (map tuple3 es) k = ok (tree, cc)
             \<and> dom cc = {r} \<and> cc r = Some (verts (set es))))"
proof (intro conjI impI)
  from clustering_accepts[of es k]
  show "\<exists>result. clustering (map tuple3 es) k = ok result" by blast
  show "clustering (map tuple3 es) k = clustering (map tuple3 es) 1"
    using assms by (rule clustering_nonpositive_eq)
next
  assume c: "connected_graph (set es)"
  from clustering_one_connected[OF c] obtain cc r
    where "clustering (map tuple3 es) 1 = ok (kruskal (sort es), cc)"
      "dom cc = {r}" "cc r = Some (verts (set es))"
    by blast
  then show "\<exists>tree cc r. minimum_spanning_tree (map tuple3 es) = ok tree
             \<and> clustering (map tuple3 es) k = ok (tree, cc)
             \<and> dom cc = {r} \<and> cc r = Some (verts (set es))"
    using minimum_spanning_tree_eq[of es] clustering_nonpositive_eq[OF assms, of es] by auto
qed

theorem clustering_nonpositive_cluster_count_witness:
  "(-3::int) \<le> 0 \<and> connected_graph (set [(1, ''a'', ''b'')])
   \<and> clustering (map tuple3 [(1, ''a'', ''b'')]) (-3) = clustering (map tuple3 [(1, ''a'', ''b'')]) 1
   \<and> (\<exists>tree cc r. minimum_spanning_tree (map tuple3 [(1, ''a'', ''b'')]) = ok tree
         \<and> clustering (map tuple3 [(1, ''a'', ''b'')]) (-3) = ok (tree, cc)
         \<and> dom cc = {r} \<and> cc r = Some (verts (set [(1, ''a'', ''b'')])))"
proof -
  have k: "(-3::int) \<le> 0" by simp
  have c: "connected_graph (set [(1::int, ''a'', ''b'')])"
    using connected_graph_single_edge[of "''a''" "''b''" 1] by simp
  from clustering_nonpositive_cluster_count[OF k, of "[(1, ''a'', ''b'')]"] c k
  show ?thesis by blast
qed

section \<open>The example\<close>

subsection \<open>The order in which the input is iterated does not matter\<close>

lemma sort_set_cong:
  fixes es es' :: "'v::linorder edge list"
  assumes "distinct es" and "distinct es'" and "set es = set es'"
  shows "sort es = sort es'"
  using assms by (intro sorted_distinct_set_unique) simp_all

lemma results_independent_of_input_order:
  fixes es es' :: "'v::linorder edge list"
  assumes "distinct es" and "distinct es'" and e: "set es = set es'"
  shows "minimum_spanning_tree (map tuple3 es) = minimum_spanning_tree (map tuple3 es')
     \<and> clustering (map tuple3 es) k = clustering (map tuple3 es') k"
proof -
  have s: "sort es = sort es'" using assms by (rule sort_set_cong)
  have "clustering_run es k = clustering_run es' k"
    by (simp add: clustering_run_def length_vertices clustering_init_eq s e)
  then show ?thesis
    by (simp add: clustering_eq minimum_spanning_tree_eq s)
qed

subsection \<open>The example graph\<close>

lemma sort_graph:
  "sort graph = [(1, ''A'', ''S''), (2, ''C'', ''D''), (2, ''E'', ''B''), (3, ''B'', ''D''),
                 (3, ''S'', ''C''), (4, ''E'', ''D''), (5, ''A'', ''B''), (6, ''A'', ''C'')]"
  unfolding graph_def by code_simp

lemma mst_graph:
  "minimum_spanning_tree (map tuple3 graph) =
     ok {(1, ''A'', ''S''), (2, ''C'', ''D''), (3, ''S'', ''C''), (3, ''B'', ''D''),
         (2, ''E'', ''B'')}"
  unfolding minimum_spanning_tree_def unpack_all_map_tuple3 mst_run_def sort_graph
  by (simp add: graph_def vertices_def mst_init_def init_dicts_def make_set_def mst_body_def
        bindr_def ok_def raise_def union_uf_def find_uf.simps insert_commute)

lemma clustering_graph:
  "clustering (map tuple3 graph) 3 =
     ok ({(1, ''A'', ''S''), (2, ''C'', ''D''), (2, ''E'', ''B'')},
         [''S'' \<mapsto> {''A'', ''S''}, ''D'' \<mapsto> {''C'', ''D''}, ''B'' \<mapsto> {''E'', ''B''}])"
  unfolding clustering_eq clustering_run_def sort_graph
  by (simp add: graph_def vertices_def clustering_init_def init_dicts_def make_set_def
        Let_def clustering_body_def bindr_def ok_def raise_def union_returning_choosen_def
        find_uf.simps insert_commute)

lemma graph_tree_components:
  "card (verts {(1::int, ''A'', ''S''), (2, ''C'', ''D''), (3, ''S'', ''C''), (3, ''B'', ''D''),
                (2, ''E'', ''B'')}) = 6
   \<and> card (components
        (verts {(1::int, ''A'', ''S''), (2, ''C'', ''D''), (3, ''S'', ''C''), (3, ''B'', ''D''),
                (2, ''E'', ''B'')})
        {(1::int, ''A'', ''S''), (2, ''C'', ''D''), (3, ''S'', ''C''), (3, ''B'', ''D''),
         (2, ''E'', ''B'')}) = 1"
proof -
  let ?T = "{(1::int, ''A'', ''S''), (2, ''C'', ''D''), (3, ''S'', ''C''), (3, ''B'', ''D''),
             (2, ''E'', ''B'')}"
  have T: "kruskal (sort graph) = ?T"
    using mst_graph minimum_spanning_tree_eq[of graph] by simp
  have "verts ?T = {''A'', ''B'', ''C'', ''D'', ''E'', ''S''}" by (auto simp: verts_def)
  then have v: "card (verts ?T) = 6" by simp
  have "card ?T + card (components (verts ?T) ?T) = card (verts ?T)"
    using mst_spanning_forest[of graph] unfolding T by blast
  moreover have "card ?T = 5" by simp
  ultimately show ?thesis using v by simp
qed

text \<open>
  C1. On the example graph, \<^verbatim>\<open>minimum_spanning_tree\<close> returns the five edges (1,A,S),
  (2,C,D), (3,S,C), (3,B,D), (2,E,B), of total weight 11, over six vertices that form one
  connected component; \<^verbatim>\<open>clustering\<close> with three clusters returns three accepted edges
  and a dictionary of three clusters that together hold the six vertices. (The driver passes
  the graph as a set; by \<open>results_independent_of_input_order\<close> the order in which \<open>graph\<close>
  lists the edges does not matter.)
\<close>

theorem example_graph_results:
  "\<exists>tree accepted cc.
     minimum_spanning_tree (map tuple3 graph) = ok tree
     \<and> tree = {(1, ''A'', ''S''), (2, ''C'', ''D''), (3, ''S'', ''C''), (3, ''B'', ''D''),
               (2, ''E'', ''B'')}
     \<and> total_weight tree = 11 \<and> card tree = 5
     \<and> card (verts tree) = 6 \<and> card (components (verts tree) tree) = 1
     \<and> clustering (map tuple3 graph) 3 = ok (accepted, cc)
     \<and> card accepted = 3 \<and> card (dom cc) = 3
     \<and> \<Union> (ran cc) = {''A'', ''B'', ''C'', ''D'', ''E'', ''S''}"
proof -
  let ?T = "{(1::int, ''A'', ''S''), (2, ''C'', ''D''), (3, ''S'', ''C''), (3, ''B'', ''D''),
             (2, ''E'', ''B'')}"
  let ?A = "{(1::int, ''A'', ''S''), (2, ''C'', ''D''), (2, ''E'', ''B'')}"
  let ?cc = "[''S'' \<mapsto> {''A'', ''S''}, ''D'' \<mapsto> {''C'', ''D''}, ''B'' \<mapsto> {''E'', ''B''}]"
  have w: "total_weight ?T = 11" by (simp add: total_weight_def)
  have c: "card ?T = 5" by simp
  have a: "card ?A = 3" by simp
  have d: "card (dom ?cc) = 3" by simp
  have u: "\<Union> (ran ?cc) = {''A'', ''B'', ''C'', ''D'', ''E'', ''S''}"
    by (simp add: ran_map_upd insert_commute)
  from mst_graph clustering_graph w c a d u graph_tree_components show ?thesis by blast
qed

end
